theory Spec2Isabelle
  imports Complex_Main "HOL-Library.Log_Nat"
begin

section \<open>The trade feed service of \<^verbatim>\<open>client/src/services/socket.js\<close>\<close>

text \<open>
  The service is one Vue instance: its \<^verbatim>\<open>data()\<close> fields and the properties its methods
  add (\<^verbatim>\<open>http_url\<close>, \<^verbatim>\<open>delayed\<close>, \<^verbatim>\<open>reconnectionTimeout\<close>, \<^verbatim>\<open>lastFetchUrl\<close>) are
  the record \<open>state\<close>; every method and every socket handler is a function that takes the
  state and returns the new one. What the methods do to the host (emitting a notification,
  arming or clearing a timer, issuing an HTTP request, sending on the socket) is recorded
  in further fields of the same record, so that it can be observed.

  A timestamp in milliseconds is an \<open>int\<close>; a price or a size is the \<open>rat\<close> its double
  stands for; nothing is computed on them but the subtraction of the clock offset from a
  timestamp. The reconnection delay is a JavaScript number (\<open>number\<close> below), and its
  product with \<^verbatim>\<open>1.1\<close> is the product of IEEE 754 doubles, rounded to nearest.
\<close>

subsection \<open>Numbers\<close>

text \<open>The value of a JavaScript number: the rational a finite double stands for (the two
  zeros are one value), an infinity, or NaN.\<close>

datatype number = Finite rat | PlusInfinity | MinusInfinity | NaN

text \<open>For \<open>0 < a\<close>, the exponent \<open>e\<close> with \<open>2^e \<le> a < 2^(e+1)\<close>: with \<open>a = n / d\<close> it is
  the difference of the bit lengths of \<open>n\<close> and \<open>d\<close>, or one less.\<close>

definition floor_log2 :: "rat \<Rightarrow> int" where
  "floor_log2 a =
     (let (n, d) = quotient_of a; k = bitlen n - bitlen d
      in if 2 powi k \<le> a then k else k - 1)"

definition round_half_even :: "rat \<Rightarrow> int" where
  "round_half_even x =
     (let f = \<lfloor>x\<rfloor>; r = x - of_int f
      in if r < 1 / 2 then f
         else if 1 / 2 < r then f + 1
         else if even f then f else f + 1)"

text \<open>The largest finite double.\<close>

definition max_double :: rat where
  "max_double = (2 ^ 53 - 1) * 2 ^ 971"

text \<open>Rounding of a rational to the nearest double, ties to even (binary64: 53 bits of
  significand, least exponent -1022, below which the spacing stays \<open>2^-1074\<close>); a result
  beyond the largest finite double is an infinity.\<close>

definition round_double :: "rat \<Rightarrow> number" where
  "round_double q =
     (if q = 0 then Finite 0
      else
        let a = \<bar>q\<bar>;
            e = max (floor_log2 a) (- 1022);
            ulp = 2 powi (e - 52);
            r = of_int (round_half_even (a / ulp)) * ulp
        in if max_double < r then (if 0 < q then PlusInfinity else MinusInfinity)
           else Finite (if 0 < q then r else - r))"

text \<open>The double the literal \<^verbatim>\<open>1.1\<close> denotes, \<^verbatim>\<open>0x3FF199999999999A\<close>.\<close>

definition double_1_1 :: rat where
  "double_1_1 = 2476979795053773 / 2 ^ 51"

text \<open>\<^verbatim>\<open>x * 1.1\<close>\<close>

fun times_1_1 :: "number \<Rightarrow> number" where
  "times_1_1 (Finite a) = round_double (a * double_1_1)"
| "times_1_1 PlusInfinity = PlusInfinity"
| "times_1_1 MinusInfinity = MinusInfinity"
| "times_1_1 NaN = NaN"

subsection \<open>Data\<close>

text \<open>A trade is the positional tuple \<^verbatim>\<open>[exchange, timestamp, price, size, side]\<close>; the code
  reads and writes position 1 only.\<close>

record trade =
  t_exchange :: string
  timestamp :: int
  t_price :: rat
  t_size :: rat
  t_side :: string

text \<open>A control object, with the fields the handler reads: \<^verbatim>\<open>type\<close> (\<open>None\<close> when absent
  or not a string), \<^verbatim>\<open>pair\<close>, \<^verbatim>\<open>exchanges\<close> (a list of \<^verbatim>\<open>{id, connected}\<close>),
  \<^verbatim>\<open>timestamp\<close> (\<open>None\<close> when absent), \<^verbatim>\<open>admin\<close>, \<^verbatim>\<open>id\<close> and \<^verbatim>\<open>message\<close>.\<close>

record control =
  c_type :: "string option"
  c_pair :: string
  c_exchanges :: "(string \<times> bool) list"
  c_timestamp :: "int option"
  c_admin :: bool
  c_id :: string
  c_message :: string

text \<open>The values \<^verbatim>\<open>JSON.parse\<close> returns on the wire format: an array is an array of
  trade tuples, an object is a control object. The values of any shape are the type
  \<open>jvalue\<close> further down, with the handler on them.\<close>

datatype json =
    JNull
  | JBool bool
  | JNum int
  | JStr string
  | JArr "trade list"
  | JObj control

text \<open>\<^verbatim>\<open>JSON.parse(event.data)\<close> either throws a SyntaxError (the text is not JSON; the
  empty text is not JSON either) or returns a value.\<close>

datatype payload = Malformed | WellFormed json

datatype error =
    SyntaxError
  | UnableToRead   \<comment> \<open>\<^verbatim>\<open>new Error('Unable to read socket message')\<close>\<close>

text \<open>The alert records the code emits, by their \<^verbatim>\<open>id\<close>/\<^verbatim>\<open>type\<close> and the values their
  title and message are built from.\<close>

datatype alert =
    ServerStatus string "string list"   \<comment> \<open>\<^verbatim>\<open>server_status\<close>, info: pair, connected exchanges\<close>
  | NowTracking string                  \<comment> \<open>\<^verbatim>\<open>pair\<close>, info\<close>
  | ExchangeConnected string            \<comment> \<open>\<^verbatim>\<open>${id}_status\<close>, success\<close>
  | ExchangeDisconnected string         \<comment> \<open>\<^verbatim>\<open>${id}_status\<close>, error\<close>
  | ExchangeError string string         \<comment> \<open>\<^verbatim>\<open>${id}_status\<close>, error: id, message\<close>
  | ConnectionLost                      \<comment> \<open>\<^verbatim>\<open>server_status\<close>, error\<close>
  | ServerUnreachable                   \<comment> \<open>\<^verbatim>\<open>server_status\<close>, error\<close>
  | FetchError string                   \<comment> \<open>\<^verbatim>\<open>fetch_error\<close>, error: message\<close>

datatype notification =
    N_connected
  | N_price string string
  | N_trades "trade list"
  | N_welcome control
  | N_admin
  | N_exchanges "string list"
  | N_pair string bool
  | N_alert alert
  | N_disconnected
  | N_error
  | N_fetchProgress nat nat
  | N_history bool
  | N_trim int

text \<open>The instance. \<open>socket\<close> is the \<^verbatim>\<open>readyState\<close> of \<^verbatim>\<open>this.socket\<close> (0 connecting,
  1 open, 2 closing, 3 closed), \<open>None\<close> for \<^verbatim>\<open>null\<close>. \<open>reconnectionTimeout\<close> is the handle
  \<^verbatim>\<open>setTimeout\<close> returned, \<open>None\<close> while undefined. The fields \<open>emitted\<close>, \<open>timers\<close>,
  \<open>next_timer\<close>, \<open>requests\<close> and \<open>sent\<close> are the host: the notifications emitted so far,
  the pending timers (handle and delay), the next handle \<^verbatim>\<open>setTimeout\<close> will return, the
  URLs requested through \<^verbatim>\<open>Axios.get\<close> and the commands sent on the socket.\<close>

record state =
  url :: string
  http_url :: string
  delay :: int
  delayed :: bool
  trades :: "trade list"
  exchanges :: "string list"
  socket :: "nat option"
  connected :: bool
  reconnectionDelay :: number
  reconnectionTimeout :: "nat option"
  lastFetchUrl :: "string option"
  emitted :: "notification list"
  timers :: "(nat \<times> number) list"
  next_timer :: nat
  requests :: "string list"
  sent :: "(string \<times> string) list"

subsection \<open>Creation\<close>

text \<open>\<^verbatim>\<open>this.url.replace(/^ws(s?)\:\/\//, 'http$1://')\<close>\<close>

definition http_of :: "string \<Rightarrow> string" where
  "http_of u =
     (if take 5 u = ''ws://'' then ''http://'' @ drop 5 u
      else if take 6 u = ''wss://'' then ''https://'' @ drop 6 u
      else u)"

text \<open>\<^verbatim>\<open>data()\<close> and \<^verbatim>\<open>created()\<close>; \<open>u\<close> is \<^verbatim>\<open>process.env.API_URL || 'ws://localhost:3000'\<close>.\<close>

definition initial :: "string \<Rightarrow> state" where
  "initial u =
     \<lparr> url = u, http_url = http_of u, delay = 0, delayed = False, trades = [],
       exchanges = [], socket = None, connected = False,
       reconnectionDelay = Finite 2000,
       reconnectionTimeout = None, lastFetchUrl = None,
       emitted = [], timers = [], next_timer = 0, requests = [], sent = [] \<rparr>"

subsection \<open>Host primitives\<close>

definition emit :: "notification \<Rightarrow> state \<Rightarrow> state" where
  "emit n st = st\<lparr>emitted := emitted st @ [n]\<rparr>"

definition clearTimeout :: "nat option \<Rightarrow> state \<Rightarrow> state" where
  "clearTimeout h st =
     (case h of
        None \<Rightarrow> st
      | Some i \<Rightarrow> st\<lparr>timers := filter (\<lambda>p. fst p \<noteq> i) (timers st)\<rparr>)"

definition setTimeout :: "number \<Rightarrow> state \<Rightarrow> nat \<times> state" where
  "setTimeout d st =
     (next_timer st,
      st\<lparr>timers := timers st @ [(next_timer st, d)], next_timer := Suc (next_timer st)\<rparr>)"

definition socket_open :: "state \<Rightarrow> bool" where
  "socket_open st = (socket st = Some 1)"

subsection \<open>Connection\<close>

definition connect :: "state \<Rightarrow> state" where
  "connect st = (if socket_open st then st else st\<lparr>socket := Some 0\<rparr>)"

definition onopen :: "state \<Rightarrow> state" where
  "onopen st =
     (emit (N_price ''???'' ''neutral'') (emit N_connected (st\<lparr>connected := True\<rparr>)))
       \<lparr>reconnectionDelay := Finite 5000\<rparr>"

definition reconnect :: "state \<Rightarrow> state" where
  "reconnect st =
     (if socket_open st then st
      else
        let st1 = clearTimeout (reconnectionTimeout st) st;
            (h, st2) = setTimeout (reconnectionDelay st1) st1
        in st2\<lparr>reconnectionTimeout := Some h,
               reconnectionDelay := times_1_1 (reconnectionDelay st2)\<rparr>)"

text \<open>\<^verbatim>\<open>socket.onclose\<close>; its \<^verbatim>\<open>clearInterval(this.refreshStatsInterval)\<close> clears an
  interval that nothing here sets.\<close>

definition onclose :: "state \<Rightarrow> state" where
  "onclose st =
     reconnect
       (if connected st
        then emit N_disconnected (emit (N_alert ConnectionLost) (st\<lparr>connected := False\<rparr>))
        else st)"

definition onerror :: "state \<Rightarrow> state" where
  "onerror st = reconnect (emit N_error (emit (N_alert ServerUnreachable) st))"

definition send :: "string \<Rightarrow> string \<Rightarrow> state \<Rightarrow> state" where
  "send method message st =
     (if socket_open st then st\<lparr>sent := sent st @ [(method, message)]\<rparr> else st)"

text \<open>\<^verbatim>\<open>this.socket && this.socket.close()\<close>: closing a socket that is connecting or open
  makes it closing; a socket that is closing or closed stays as it is.\<close>

definition disconnect :: "state \<Rightarrow> state" where
  "disconnect st =
     (case socket st of
        None \<Rightarrow> st
      | Some r \<Rightarrow> if r < 2 then st\<lparr>socket := Some 2\<rparr> else st)"

text \<open>A pending timer fires: the host drops it and calls \<^verbatim>\<open>this.connect\<close>.\<close>

definition timer_fire :: "nat \<Rightarrow> state \<Rightarrow> state" where
  "timer_fire i st =
     (if i \<in> set (map fst (timers st))
      then connect (st\<lparr>timers := filter (\<lambda>p. fst p \<noteq> i) (timers st)\<rparr>)
      else st)"

subsection \<open>Inbound frames\<close>

text \<open>\<^verbatim>\<open>!data\<close> is true for \<^verbatim>\<open>null\<close>, \<^verbatim>\<open>false\<close>, \<^verbatim>\<open>0\<close> and the empty string.\<close>

fun truthy :: "json \<Rightarrow> bool" where
  "truthy JNull = False"
| "truthy (JBool b) = b"
| "truthy (JNum n) = (n \<noteq> 0)"
| "truthy (JStr s) = (s \<noteq> [])"
| "truthy (JArr xs) = True"
| "truthy (JObj c) = True"

text \<open>\<^verbatim>\<open>data[i][1] -= this.delay\<close>\<close>

definition shift :: "int \<Rightarrow> trade \<Rightarrow> trade" where
  "shift d t = t\<lparr>timestamp := timestamp t - d\<rparr>"

text \<open>The loop over the batch, run only when \<^verbatim>\<open>this.delayed\<close>.\<close>

definition correct :: "state \<Rightarrow> trade list \<Rightarrow> trade list" where
  "correct st xs = (if delayed st then map (shift (delay st)) xs else xs)"

text \<open>The array branch: \<^verbatim>\<open>data.sort((a, b) => a[1] - b[1])\<close> is a sort by timestamp
  (stable, as the language requires since ES2019).\<close>

definition receive_trades :: "trade list \<Rightarrow> state \<Rightarrow> state" where
  "receive_trades xs st =
     (let data = correct st (sort_key timestamp xs)
      in emit (N_trades data) (st\<lparr>trades := trades st @ data\<rparr>))"

text \<open>The \<^verbatim>\<open>switch (data.type)\<close> on a control object; \<open>now\<close> is \<^verbatim>\<open>+new Date()\<close>, \<open>debug\<close>
  is \<^verbatim>\<open>options.debug\<close>. The read of \<^verbatim>\<open>localStorage\<close> in the welcome case has no effect.\<close>

definition on_welcome :: "int \<Rightarrow> control \<Rightarrow> state \<Rightarrow> state" where
  "on_welcome now c st =
     (let st1 = emit (N_welcome c) st;
          st2 = (if c_admin c then emit N_admin st1 else st1);
          st3 = st2\<lparr>exchanges := map fst (filter snd (c_exchanges c))\<rparr>;
          d = (case c_timestamp c of
                 None \<Rightarrow> 0
               | Some ts \<Rightarrow> if ts \<noteq> 0 then ts - now else 0);
          st4 = st3\<lparr>delay := d, delayed := (2000 < \<bar>d\<bar>)\<rparr>;
          st5 = emit (N_exchanges (exchanges st4)) st4;
          st6 = emit (N_pair (c_pair c) True) st5
      in emit (N_alert (ServerStatus (c_pair c) (exchanges st6))) st6)"

definition exchange_connected :: "bool \<Rightarrow> control \<Rightarrow> state \<Rightarrow> state" where
  "exchange_connected debug c st =
     (let st1 = (if debug then emit (N_alert (ExchangeConnected (c_id c))) st else st);
          st2 = (if c_id c \<notin> set (exchanges st1)
                 then st1\<lparr>exchanges := exchanges st1 @ [c_id c]\<rparr> else st1)
      in emit (N_exchanges (exchanges st2)) st2)"

definition exchange_disconnected :: "bool \<Rightarrow> control \<Rightarrow> state \<Rightarrow> state" where
  "exchange_disconnected debug c st =
     (let st1 = (if debug then emit (N_alert (ExchangeDisconnected (c_id c))) st else st);
          st2 = (if c_id c \<in> set (exchanges st1)
                 then st1\<lparr>exchanges := remove1 (c_id c) (exchanges st1)\<rparr> else st1)
      in emit (N_exchanges (exchanges st2)) st2)"

definition control_switch :: "int \<Rightarrow> bool \<Rightarrow> control \<Rightarrow> state \<Rightarrow> state" where
  "control_switch now debug c st =
     (if c_type c = Some ''welcome'' then on_welcome now c st
      else if c_type c = Some ''pair''
      then emit (N_alert (NowTracking (c_pair c))) (emit (N_pair (c_pair c) False) st)
      else if c_type c = Some ''exchange_connected'' then exchange_connected debug c st
      else if c_type c = Some ''exchange_disconnected'' then exchange_disconnected debug c st
      else if c_type c = Some ''exchange_error''
      then (if debug then emit (N_alert (ExchangeError (c_id c) (c_message c))) st else st)
      else st)"

text \<open>\<^verbatim>\<open>socket.onmessage\<close>. \<open>Inl (e, s)\<close>: the handler threw \<open>e\<close>, leaving the state \<open>s\<close>;
  \<open>Inr s\<close>: it returned, leaving \<open>s\<close>. After the two throws comes the test
  \<^verbatim>\<open>Array.isArray(data) && data.length\<close>; \<^verbatim>\<open>typeof data.type\<close> is a non-empty string
  whatever \<^verbatim>\<open>data\<close> is, so the else branch is always the switch, and \<^verbatim>\<open>data.type\<close> is
  undefined (no case) when \<^verbatim>\<open>data\<close> is not an object.\<close>

definition onmessage :: "int \<Rightarrow> bool \<Rightarrow> payload \<Rightarrow> state \<Rightarrow> (error \<times> state) + state" where
  "onmessage now debug p st =
     (case p of
        Malformed \<Rightarrow> Inl (SyntaxError, st)
      | WellFormed data \<Rightarrow>
          if \<not> truthy data then Inl (UnableToRead, st)
          else
            (case data of
               JArr xs \<Rightarrow> if xs \<noteq> [] then Inr (receive_trades xs st) else Inr st
             | JObj c \<Rightarrow> Inr (control_switch now debug c st)
             | _ \<Rightarrow> Inr st))"

subsection \<open>History\<close>

text \<open>\<^verbatim>\<open>parseInt\<close> of an integer, as the template string prints it.\<close>

fun digits :: "nat \<Rightarrow> string" where
  "digits n = (if n < 10 then [''0123456789'' ! n]
               else digits (n div 10) @ [''0123456789'' ! (n mod 10)])"

definition show_int :: "int \<Rightarrow> string" where
  "show_int i = (if i < 0 then CHR ''-'' # digits (nat (- i)) else digits (nat i))"

text \<open>The defaults of \<^verbatim>\<open>fetch(from, to = null, willReplace = false)\<close>: \<^verbatim>\<open>!to\<close> holds when
  \<open>to\<close> is missing, null or 0.\<close>

definition fetch_args :: "int \<Rightarrow> int \<Rightarrow> int option \<Rightarrow> bool \<Rightarrow> int \<times> int \<times> bool" where
  "fetch_args now t_from t_to willReplace =
     (case t_to of
        None \<Rightarrow> (now - t_from * 1000 * 60, now, True)
      | Some t \<Rightarrow> if t = 0 then (now - t_from * 1000 * 60, now, True)
                  else (t_from, t, willReplace))"

definition fetch_url :: "state \<Rightarrow> int \<Rightarrow> int \<Rightarrow> string" where
  "fetch_url st t_from t_to =
     http_url st @ ''/history/'' @ show_int t_from @ ''/'' @ show_int t_to"

text \<open>What \<^verbatim>\<open>fetch\<close> returns: a promise already resolved with nothing, or the promise of
  the request to the URL, whose \<^verbatim>\<open>then\<close> handler holds \<^verbatim>\<open>willReplace\<close>.\<close>

datatype promise = Resolved | Request string bool

definition fetch :: "int \<Rightarrow> int \<Rightarrow> int option \<Rightarrow> bool \<Rightarrow> state \<Rightarrow> promise \<times> state" where
  "fetch now t_from t_to willReplace st =
     (let (f, t, w) = fetch_args now t_from t_to willReplace;
          u = fetch_url st f t
      in if lastFetchUrl st = Some u then (Resolved, st)
         else (Request u w, st\<lparr>lastFetchUrl := Some u, requests := requests st @ [u]\<rparr>))"

text \<open>The \<^verbatim>\<open>then\<close> handler, on the response's trades; the pair is the value the promise
  resolves with and the state. Both filters read the buffer before it is assigned.\<close>

definition merge_trades :: "trade list \<Rightarrow> trade list \<Rightarrow> trade list" where
  "merge_trades buf xs =
     (let prepend = filter (\<lambda>t. timestamp t \<le> timestamp (hd buf)) xs;
          append = filter (\<lambda>t. timestamp (last buf) \<le> timestamp t) xs;
          buf1 = (if prepend \<noteq> [] then prepend @ buf else buf)
      in if append \<noteq> [] then buf1 @ append else buf1)"

definition fetch_then :: "bool \<Rightarrow> trade list \<Rightarrow> state \<Rightarrow> trade list \<times> state" where
  "fetch_then willReplace response st =
     (let count = length (trades st);
          xs = correct st response;
          st1 = (if willReplace \<or> trades st = [] then st\<lparr>trades := xs\<rparr>
                 else st\<lparr>trades := merge_trades (trades st) xs\<rparr>);
          st2 = (if count \<noteq> length (trades st1) then emit (N_history willReplace) st1
                 else st1)
      in (xs, st2))"

text \<open>The \<^verbatim>\<open>catch\<close> handler; \<open>err\<close> is the error's message, \<open>None\<close> for a falsy error.\<close>

definition fetch_catch :: "string option \<Rightarrow> state \<Rightarrow> state" where
  "fetch_catch err st =
     (case err of None \<Rightarrow> st | Some m \<Rightarrow> emit (N_alert (FetchError m)) st)"

subsection \<open>Trimming\<close>

text \<open>The loop of \<^verbatim>\<open>trim\<close>: \<open>scan xs T k\<close> looks at the indices \<open>k - 1\<close> down to 0 and
  returns the index it breaks at, \<open>None\<close> when it ends with \<^verbatim>\<open>index < 0\<close>.\<close>

fun scan :: "trade list \<Rightarrow> int \<Rightarrow> nat \<Rightarrow> nat option" where
  "scan xs T 0 = None"
| "scan xs T (Suc i) = (if timestamp (xs ! i) < T then Some i else scan xs T i)"

definition trim :: "int \<Rightarrow> state \<Rightarrow> state" where
  "trim T st =
     (case scan (trades st) T (length (trades st)) of
        None \<Rightarrow> st
      | Some i \<Rightarrow> emit (N_trim T) (st\<lparr>trades := drop (Suc i) (trades st)\<rparr>))"

subsection \<open>The event loop\<close>

text \<open>Everything that can run on the instance: a method call, a handler of a socket, a
  timer, a completion of a request; and the host changing the \<^verbatim>\<open>readyState\<close> of the
  socket. The host runs them one at a time, each to its end. A handler may come from a
  socket that \<^verbatim>\<open>connect\<close> has since replaced, so no event is tied to a \<^verbatim>\<open>readyState\<close>.
  \<open>FetchProgress\<close> is the download callback with \<^verbatim>\<open>e.loaded\<close> and \<^verbatim>\<open>e.total\<close>; the
  notification holds their quotient as well, which is left out.\<close>

datatype event =
    Connect
  | Disconnect
  | Send string string
  | Reconnect
  | OnOpen
  | OnMessage int payload
  | OnClose
  | OnError
  | ReadyState nat
  | TimerFire nat
  | Fetch int int "int option" bool
  | FetchProgress nat nat
  | FetchThen bool "trade list"
  | FetchCatch "string option"
  | Trim int

fun step :: "bool \<Rightarrow> event \<Rightarrow> state \<Rightarrow> (error \<times> state) + state" where
  "step debug Connect st = Inr (connect st)"
| "step debug Disconnect st = Inr (disconnect st)"
| "step debug (Send m x) st = Inr (send m x st)"
| "step debug Reconnect st = Inr (reconnect st)"
| "step debug OnOpen st = Inr (onopen st)"
| "step debug (OnMessage now p) st = onmessage now debug p st"
| "step debug OnClose st = Inr (onclose st)"
| "step debug OnError st = Inr (onerror st)"
| "step debug (ReadyState r) st =
     Inr (case socket st of None \<Rightarrow> st | Some _ \<Rightarrow> st\<lparr>socket := Some r\<rparr>)"
| "step debug (TimerFire i) st = Inr (timer_fire i st)"
| "step debug (Fetch now f t w) st = Inr (snd (fetch now f t w st))"
| "step debug (FetchProgress l n) st = Inr (emit (N_fetchProgress l n) st)"
| "step debug (FetchThen w xs) st = Inr (snd (fetch_then w xs st))"
| "step debug (FetchCatch e) st = Inr (fetch_catch e st)"
| "step debug (Trim T) st = Inr (trim T st)"

text \<open>An error that escapes a handler ends that handler only: the state stays as the
  handler left it and the loop goes on.\<close>

definition exec :: "bool \<Rightarrow> event \<Rightarrow> state \<Rightarrow> state" where
  "exec debug ev st = (case step debug ev st of Inl (e, s) \<Rightarrow> s | Inr s \<Rightarrow> s)"

fun run :: "bool \<Rightarrow> event list \<Rightarrow> state \<Rightarrow> state" where
  "run debug [] st = st"
| "run debug (ev # es) st = run debug es (exec debug ev st)"

text \<open>The states after each event of a sequence.\<close>

fun trace :: "bool \<Rightarrow> event list \<Rightarrow> state \<Rightarrow> state list" where
  "trace debug [] st = []"
| "trace debug (ev # es) st = exec debug ev st # trace debug es (exec debug ev st)"

subsection \<open>Properties of the buffer\<close>

text \<open>The buffer is ordered: its timestamps never decrease.\<close>

definition buffer_sorted :: "state \<Rightarrow> bool" where
  "buffer_sorted st = sorted (map timestamp (trades st))"

text \<open>What the buffer asks of the data an event brings: a live batch, once corrected, holds
  nothing older than the last trade of the buffer; the trades of a history response are
  in order. The other events bring no trades.\<close>

fun admissible :: "event \<Rightarrow> state \<Rightarrow> bool" where
  "admissible (OnMessage now (WellFormed (JArr xs))) st =
     (trades st = [] \<or>
      (\<forall>t \<in> set (correct st xs). timestamp (last (trades st)) \<le> timestamp t))"
| "admissible (FetchThen w xs) st = sorted (map timestamp xs)"
| "admissible ev st = True"

text \<open>Every event of a sequence is admissible in the state it meets.\<close>

fun admissible_run :: "bool \<Rightarrow> event list \<Rightarrow> state \<Rightarrow> bool" where
  "admissible_run debug [] st = True"
| "admissible_run debug (ev # es) st =
     (admissible ev st \<and> admissible_run debug es (exec debug ev st))"

subsection \<open>Frames of any shape\<close>

text \<open>The types the switch has a case for.\<close>

definition recognized :: "string list" where
  "recognized = [''welcome'', ''pair'', ''exchange_connected'', ''exchange_disconnected'',
                 ''exchange_error'']"

text \<open>Any value \<^verbatim>\<open>JSON.parse\<close> returns: a number by the value of its double, an object by
  its members in the order of the text (for a repeated key the last member is the
  property).\<close>

datatype jvalue =
    VNull
  | VBool bool
  | VNum rat
  | VStr string
  | VArr "jvalue list"
  | VObj "(string \<times> jvalue) list"

datatype frame = Unparsable | Parsed jvalue

fun truthy_value :: "jvalue \<Rightarrow> bool" where
  "truthy_value VNull = False"
| "truthy_value (VBool b) = b"
| "truthy_value (VNum q) = (q \<noteq> 0)"
| "truthy_value (VStr s) = (s \<noteq> [])"
| "truthy_value (VArr xs) = True"
| "truthy_value (VObj ms) = True"

definition property :: "(string \<times> jvalue) list \<Rightarrow> string \<Rightarrow> jvalue option" where
  "property ms k = map_of (rev ms) k"

text \<open>\<^verbatim>\<open>data.type\<close>: a property of an object, undefined (\<open>None\<close>) on an array, a string, a
  number and a boolean.\<close>

fun data_type :: "jvalue \<Rightarrow> jvalue option" where
  "data_type (VObj ms) = property ms ''type''"
| "data_type v = None"

text \<open>\<^verbatim>\<open>Array.isArray(data) && data.length\<close>\<close>

fun is_batch :: "jvalue \<Rightarrow> bool" where
  "is_batch (VArr xs) = (xs \<noteq> [])"
| "is_batch v = False"

text \<open>The switch has a case for \<^verbatim>\<open>data.type\<close>: the comparison is strict, so the type is one
  of the five strings.\<close>

definition has_case :: "jvalue \<Rightarrow> bool" where
  "has_case v = (case data_type v of Some (VStr ty) \<Rightarrow> ty \<in> set recognized | _ \<Rightarrow> False)"

text \<open>Reading a value as a frame of the wire format: a trade tuple of an exchange, an
  integral timestamp, a price, a size and a side; a control object with the fields of its
  type. \<open>None\<close> when the value is not of that format.\<close>

definition integral :: "rat \<Rightarrow> bool" where
  "integral q = (q = of_int \<lfloor>q\<rfloor>)"

definition as_trade :: "jvalue \<Rightarrow> trade option" where
  "as_trade v =
     (case v of
        VArr [VStr e, VNum t, VNum p, VNum s, VStr d] \<Rightarrow>
          if integral t
          then Some \<lparr> t_exchange = e, timestamp = \<lfloor>t\<rfloor>, t_price = p, t_size = s, t_side = d \<rparr>
          else None
      | _ \<Rightarrow> None)"

fun decode_batch :: "jvalue \<Rightarrow> trade list option" where
  "decode_batch (VArr xs) = those (map as_trade xs)"
| "decode_batch v = None"

definition str_property :: "(string \<times> jvalue) list \<Rightarrow> string \<Rightarrow> string option" where
  "str_property ms k = (case property ms k of Some (VStr s) \<Rightarrow> Some s | _ \<Rightarrow> None)"

fun as_exchange :: "jvalue \<Rightarrow> (string \<times> bool) option" where
  "as_exchange (VObj ms) =
     (case (str_property ms ''id'', property ms ''connected'') of
        (Some i, Some (VBool c)) \<Rightarrow> Some (i, c)
      | _ \<Rightarrow> None)"
| "as_exchange v = None"

definition opt_timestamp :: "(string \<times> jvalue) list \<Rightarrow> int option option" where
  "opt_timestamp ms =
     (case property ms ''timestamp'' of
        None \<Rightarrow> Some None
      | Some (VNum t) \<Rightarrow> if integral t then Some (Some \<lfloor>t\<rfloor>) else None
      | _ \<Rightarrow> None)"

definition opt_admin :: "(string \<times> jvalue) list \<Rightarrow> bool option" where
  "opt_admin ms =
     (case property ms ''admin'' of
        None \<Rightarrow> Some False
      | Some (VBool b) \<Rightarrow> Some b
      | _ \<Rightarrow> None)"

definition blank :: "string \<Rightarrow> control" where
  "blank ty = \<lparr> c_type = Some ty, c_pair = [], c_exchanges = [], c_timestamp = None,
                 c_admin = False, c_id = [], c_message = [] \<rparr>"

definition as_control :: "(string \<times> jvalue) list \<Rightarrow> control option" where
  "as_control ms =
     (case str_property ms ''type'' of
        None \<Rightarrow> None
      | Some ty \<Rightarrow>
          if ty = ''welcome'' then
            (case (str_property ms ''pair'', property ms ''exchanges'',
                   opt_timestamp ms, opt_admin ms) of
               (Some p, Some (VArr es), Some ts, Some ad) \<Rightarrow>
                 (case those (map as_exchange es) of
                    Some xs \<Rightarrow> Some ((blank ty)\<lparr>c_pair := p, c_exchanges := xs,
                                               c_timestamp := ts, c_admin := ad\<rparr>)
                  | None \<Rightarrow> None)
             | _ \<Rightarrow> None)
          else if ty = ''pair'' then
            (case str_property ms ''pair'' of
               Some p \<Rightarrow> Some ((blank ty)\<lparr>c_pair := p\<rparr>)
             | None \<Rightarrow> None)
          else if ty = ''exchange_connected'' \<or> ty = ''exchange_disconnected'' then
            (case str_property ms ''id'' of
               Some i \<Rightarrow> Some ((blank ty)\<lparr>c_id := i\<rparr>)
             | None \<Rightarrow> None)
          else if ty = ''exchange_error'' then
            (case (str_property ms ''id'', str_property ms ''message'') of
               (Some i, Some m) \<Rightarrow> Some ((blank ty)\<lparr>c_id := i, c_message := m\<rparr>)
             | _ \<Rightarrow> None)
          else None)"

fun decode_control :: "jvalue \<Rightarrow> control option" where
  "decode_control (VObj ms) = as_control ms"
| "decode_control v = None"

text \<open>\<^verbatim>\<open>socket.onmessage\<close> on a frame of any shape. The two throws, the test for the array
  branch and the switch are the handler's; the array branch and the cases of the switch are
  \<open>receive_trades\<close> and \<open>control_switch\<close> when the value is of the wire format. What they
  do with another value (a non-empty array of something else than trade tuples, an object
  of a type with a case whose fields are not those of the type) depends on the coercions
  of the language and is the parameter \<open>other\<close>.\<close>

definition onmessage_raw ::
  "int \<Rightarrow> bool \<Rightarrow> (jvalue \<Rightarrow> state \<Rightarrow> (error \<times> state) + state) \<Rightarrow> frame \<Rightarrow> state
     \<Rightarrow> (error \<times> state) + state" where
  "onmessage_raw now debug other f st =
     (case f of
        Unparsable \<Rightarrow> Inl (SyntaxError, st)
      | Parsed data \<Rightarrow>
          if \<not> truthy_value data then Inl (UnableToRead, st)
          else if is_batch data then
            (case decode_batch data of
               Some xs \<Rightarrow> Inr (receive_trades xs st)
             | None \<Rightarrow> other data st)
          else if has_case data then
            (case decode_control data of
               Some c \<Rightarrow> Inr (control_switch now debug c st)
             | None \<Rightarrow> other data st)
          else Inr st)"

subsection \<open>Kinds of events\<close>

fun is_welcome :: "event \<Rightarrow> bool" where
  "is_welcome (OnMessage now (WellFormed (JObj c))) = (c_type c = Some ''welcome'')"
| "is_welcome ev = False"

fun is_fetch :: "event \<Rightarrow> bool" where
  "is_fetch (Fetch now f t w) = True"
| "is_fetch ev = False"

text \<open>A completion of a request.\<close>

fun is_completion :: "event \<Rightarrow> bool" where
  "is_completion (FetchThen w xs) = True"
| "is_completion (FetchCatch e) = True"
| "is_completion ev = False"

fun is_open :: "event \<Rightarrow> bool" where
  "is_open OnOpen = True"
| "is_open ev = False"

subsection \<open>The reconnection timer\<close>

text \<open>At most one timer is pending, and \<^verbatim>\<open>this.reconnectionTimeout\<close> is the handle of
  a timer that is.\<close>

definition timer_inv :: "state \<Rightarrow> bool" where
  "timer_inv st =
     (length (timers st) \<le> 1 \<and>
      list_all (\<lambda>p. reconnectionTimeout st = Some (fst p)) (timers st))"

text \<open>The delay of the timer armed last.\<close>

definition last_scheduled :: "state \<Rightarrow> number" where
  "last_scheduled st = snd (last (timers st))"

text \<open>A number is above a bound.\<close>

fun exceeds :: "number \<Rightarrow> rat \<Rightarrow> bool" where
  "exceeds (Finite a) B = (B < a)"
| "exceeds PlusInfinity B = True"
| "exceeds MinusInfinity B = False"
| "exceeds NaN B = False"

text \<open>Half the relative spacing of doubles, and the least and greatest factor by which one
  rounded multiplication by \<^verbatim>\<open>1.1\<close> can change a number that is at least 1.\<close>

definition rho :: rat where
  "rho = 1 / 2 ^ 53"

definition lo_factor :: rat where
  "lo_factor = 11 / 10 * (1 - rho)"

definition hi_factor :: rat where
  "hi_factor = 11 / 10 * (1 + rho) * (1 + rho)"

subsection \<open>Sample data\<close>

text \<open>A trade at a given time, and an instance whose buffer holds trades at given times.\<close>

definition trade_at :: "int \<Rightarrow> trade" where
  "trade_at ts = \<lparr> t_exchange = ''bitmex'', timestamp = ts, t_price = 9000,
                   t_size = 1, t_side = ''buy'' \<rparr>"

definition sample :: "int list \<Rightarrow> state" where
  "sample tss = (initial ''ws://localhost:3000'')\<lparr>trades := map trade_at tss\<rparr>"

text \<open>Control objects of a given type; a welcome reporting a given server time.\<close>

definition control_of :: "string \<Rightarrow> control" where
  "control_of ty = \<lparr> c_type = Some ty, c_pair = ''BTCUSD'',
                      c_exchanges = [(''bitmex'', True), (''okex'', False)],
                      c_timestamp = None, c_admin = False, c_id = ''bitmex'',
                      c_message = ''timeout'' \<rparr>"

definition welcome_at :: "int \<Rightarrow> control" where
  "welcome_at ts = (control_of ''welcome'')\<lparr>c_timestamp := Some ts\<rparr>"

text \<open>A stand-in for the parameter of \<open>onmessage_raw\<close>.\<close>

definition other_ignored :: "jvalue \<Rightarrow> state \<Rightarrow> (error \<times> state) + state" where
  "other_ignored v st = Inr st"

section \<open>The trade buffer\<close>

subsection \<open>Order is kept by every operation\<close>

lemma emitted_simps [simp]:
  "trades (emit n st) = trades st" "delay (emit n st) = delay st"
  "delayed (emit n st) = delayed st"
  by (simp_all add: emit_def)

lemma timestamp_shift [simp]: "timestamp (shift d t) = timestamp t - d"
  by (simp add: shift_def)

lemma sorted_shift:
  "sorted (map timestamp xs) \<Longrightarrow> sorted (map timestamp (map (shift d) xs))"
  by (induction xs) auto

lemma sorted_correct:
  "sorted (map timestamp xs) \<Longrightarrow> sorted (map timestamp (correct st xs))"
  by (simp add: correct_def sorted_shift del: map_map)

lemma sorted_sort_timestamp: "sorted (map timestamp (sort_key timestamp xs))"
  by (rule sorted_sort_key)

lemma sorted_hd_le:
  assumes "sorted (map timestamp buf)" "t \<in> set buf"
  shows "timestamp (hd buf) \<le> timestamp t"
proof -
  from assms(2) obtain i where i: "i < length buf" "buf ! i = t"
    by (auto simp: in_set_conv_nth)
  then have "buf \<noteq> []" by auto
  moreover from assms(1) i have "map timestamp buf ! 0 \<le> map timestamp buf ! i"
    by (rule_tac sorted_nth_mono) auto
  ultimately show ?thesis using i by (simp add: hd_conv_nth)
qed

lemma sorted_le_last:
  assumes "sorted (map timestamp buf)" "t \<in> set buf"
  shows "timestamp t \<le> timestamp (last buf)"
proof -
  from assms(2) obtain i where i: "i < length buf" "buf ! i = t"
    by (auto simp: in_set_conv_nth)
  then have ne: "buf \<noteq> []" by auto
  from assms(1) i
  have "map timestamp buf ! i \<le> map timestamp buf ! (length buf - 1)"
    by (rule_tac sorted_nth_mono) auto
  with ne i show ?thesis by (simp add: last_conv_nth)
qed

lemma merge_trades_eq:
  "merge_trades buf xs =
     filter (\<lambda>t. timestamp t \<le> timestamp (hd buf)) xs @ buf @
     filter (\<lambda>t. timestamp (last buf) \<le> timestamp t) xs"
  by (simp add: merge_trades_def Let_def)

lemma sorted_map_append:
  "sorted (map f (xs @ ys)) \<longleftrightarrow>
     sorted (map f xs) \<and> sorted (map f ys) \<and> (\<forall>x \<in> set xs. \<forall>y \<in> set ys. f x \<le> f y)"
  by (auto simp: sorted_append)

lemma sorted_merge_trades:
  assumes buf: "sorted (map timestamp buf)" "buf \<noteq> []"
    and xs: "sorted (map timestamp xs)"
  shows "sorted (map timestamp (merge_trades buf xs))"
proof -
  let ?P = "filter (\<lambda>t. timestamp t \<le> timestamp (hd buf)) xs"
  let ?A = "filter (\<lambda>t. timestamp (last buf) \<le> timestamp t) xs"
  have hl: "timestamp (hd buf) \<le> timestamp (last buf)"
    using sorted_le_last [OF buf(1), of "hd buf"] buf(2) by simp
  have P: "sorted (map timestamp ?P)" and A: "sorted (map timestamp ?A)"
    using xs by (rule sorted_filter)+
  have PB: "\<forall>a \<in> set ?P. \<forall>b \<in> set buf. timestamp a \<le> timestamp b"
  proof (intro ballI)
    fix a b assume "a \<in> set ?P" "b \<in> set buf"
    then have "timestamp a \<le> timestamp (hd buf)" "timestamp (hd buf) \<le> timestamp b"
      using sorted_hd_le [OF buf(1), of b] by simp_all
    then show "timestamp a \<le> timestamp b" by linarith
  qed
  have BA: "\<forall>a \<in> set buf. \<forall>b \<in> set ?A. timestamp a \<le> timestamp b"
  proof (intro ballI)
    fix a b assume "a \<in> set buf" "b \<in> set ?A"
    then have "timestamp a \<le> timestamp (last buf)" "timestamp (last buf) \<le> timestamp b"
      using sorted_le_last [OF buf(1), of a] by simp_all
    then show "timestamp a \<le> timestamp b" by linarith
  qed
  have PA: "\<forall>a \<in> set ?P. \<forall>b \<in> set ?A. timestamp a \<le> timestamp b"
  proof (intro ballI)
    fix a b assume "a \<in> set ?P" "b \<in> set ?A"
    then have "timestamp a \<le> timestamp (hd buf)" "timestamp (last buf) \<le> timestamp b"
      by simp_all
    with hl show "timestamp a \<le> timestamp b" by linarith
  qed
  have "sorted (map timestamp (buf @ ?A))"
    unfolding sorted_map_append using buf(1) A BA by blast
  moreover have "\<forall>a \<in> set ?P. \<forall>b \<in> set (buf @ ?A). timestamp a \<le> timestamp b"
    using PB PA unfolding set_append by blast
  ultimately have "sorted (map timestamp (?P @ (buf @ ?A)))"
    unfolding sorted_map_append [of _ ?P] using P by blast
  then show ?thesis by (simp only: merge_trades_eq)
qed

lemma fetch_then_trades:
  "trades (snd (fetch_then w resp st)) =
     (if w \<or> trades st = [] then correct st resp
      else merge_trades (trades st) (correct st resp))"
  by (simp add: fetch_then_def Let_def)

lemma buffer_sorted_fetch_then:
  "buffer_sorted st \<Longrightarrow> sorted (map timestamp resp) \<Longrightarrow>
     buffer_sorted (snd (fetch_then w resp st))"
  by (simp add: buffer_sorted_def fetch_then_trades sorted_correct sorted_merge_trades)

lemma receive_trades_trades:
  "trades (receive_trades xs st) = trades st @ correct st (sort_key timestamp xs)"
  by (simp add: receive_trades_def Let_def)

lemma set_correct_sort:
  "set (correct st (sort_key timestamp xs)) = set (correct st xs)"
  by (simp add: correct_def)

lemma buffer_sorted_receive_trades:
  assumes "buffer_sorted st"
    and "trades st = [] \<or>
         (\<forall>t \<in> set (correct st xs). timestamp (last (trades st)) \<le> timestamp t)"
  shows "buffer_sorted (receive_trades xs st)"
proof -
  let ?new = "correct st (sort_key timestamp xs)"
  have s: "sorted (map timestamp ?new)"
    by (rule sorted_correct) (rule sorted_sort_timestamp)
  have "\<forall>a \<in> set (trades st). \<forall>b \<in> set ?new. timestamp a \<le> timestamp b"
  proof (intro ballI)
    fix a b assume a: "a \<in> set (trades st)" and b: "b \<in> set ?new"
    from a have "trades st \<noteq> []" by auto
    with assms(2) b have "timestamp (last (trades st)) \<le> timestamp b"
      unfolding set_correct_sort by blast
    moreover from assms(1) a have "timestamp a \<le> timestamp (last (trades st))"
      unfolding buffer_sorted_def by (rule sorted_le_last)
    ultimately show "timestamp a \<le> timestamp b" by linarith
  qed
  with s assms(1) have "sorted (map timestamp (trades st @ ?new))"
    unfolding sorted_map_append buffer_sorted_def by blast
  then show ?thesis by (simp only: buffer_sorted_def receive_trades_trades)
qed

lemma control_switch_trades [simp]: "trades (control_switch now debug c st) = trades st"
  by (simp add: control_switch_def on_welcome_def exchange_connected_def
      exchange_disconnected_def Let_def)

lemma reconnect_trades [simp]: "trades (reconnect st) = trades st"
  by (simp add: reconnect_def clearTimeout_def setTimeout_def Let_def split: option.splits)

lemma buffer_sorted_trim: "buffer_sorted st \<Longrightarrow> buffer_sorted (trim T st)"
  by (auto simp: buffer_sorted_def trim_def drop_map [symmetric] split: option.splits)

lemma buffer_sorted_exec:
  assumes "buffer_sorted st" "admissible ev st"
  shows "buffer_sorted (exec debug ev st)"
proof (cases ev)
  case (OnMessage now p)
  show ?thesis
  proof (cases p)
    case Malformed
    with OnMessage assms show ?thesis by (simp add: exec_def onmessage_def)
  next
    case (WellFormed data)
    with OnMessage assms show ?thesis
      by (cases data)
        (auto simp: exec_def onmessage_def buffer_sorted_receive_trades
          buffer_sorted_def [of "control_switch _ _ _ _"] buffer_sorted_def [of st])
  qed
next
  case (FetchThen w xs)
  with assms show ?thesis by (simp add: exec_def buffer_sorted_fetch_then)
next
  case (Trim T)
  with assms show ?thesis by (simp add: exec_def buffer_sorted_trim)
next
  case (Fetch now f t w)
  with assms show ?thesis
    by (simp add: exec_def buffer_sorted_def fetch_def Let_def split: prod.splits)
qed (use assms in \<open>auto simp: exec_def buffer_sorted_def connect_def disconnect_def send_def
      onopen_def onclose_def onerror_def timer_fire_def fetch_catch_def
      split: option.splits\<close>)

subsection \<open>The scan of trim\<close>

lemma scan_None: "scan xs T k = None \<longleftrightarrow> (\<forall>i<k. \<not> timestamp (xs ! i) < T)"
  by (induction k) (auto simp: less_Suc_eq)

lemma scan_Some:
  "scan xs T k = Some i \<Longrightarrow>
     i < k \<and> timestamp (xs ! i) < T \<and> (\<forall>j. i < j \<and> j < k \<longrightarrow> \<not> timestamp (xs ! j) < T)"
  by (induction k) (auto simp: less_Suc_eq split: if_splits)

lemma scan_sorted_drop:
  assumes "sorted (map timestamp xs)" and "scan xs T (length xs) = Some i"
  shows "dropWhile (\<lambda>t. timestamp t < T) xs = drop (Suc i) xs"
proof -
  from scan_Some [OF assms(2)]
  have i: "i < length xs" and lt: "timestamp (xs ! i) < T"
    and ge: "\<And>j. i < j \<Longrightarrow> j < length xs \<Longrightarrow> \<not> timestamp (xs ! j) < T"
    by auto
  have below: "timestamp (xs ! j) < T" if "j < Suc i" for j
  proof -
    from that i have "j \<le> i" "i < length (map timestamp xs)" by auto
    with assms(1) have "map timestamp xs ! j \<le> map timestamp xs ! i"
      by (rule_tac sorted_nth_mono) auto
    with i that lt show ?thesis by simp
  qed
  have "takeWhile (\<lambda>t. timestamp t < T) xs = take (Suc i) xs"
    by (rule takeWhile_eq_take_P_nth) (auto simp: below ge)
  then have "length (takeWhile (\<lambda>t. timestamp t < T) xs) = Suc i"
    using i by simp
  then show ?thesis by (simp add: dropWhile_eq_drop)
qed

lemma scan_None_dropWhile:
  assumes "scan xs T (length xs) = None"
  shows "dropWhile (\<lambda>t. timestamp t < T) xs = xs"
proof (cases xs)
  case Nil
  then show ?thesis by simp
next
  case (Cons x ys)
  from assms have "\<forall>i<length xs. \<not> timestamp (xs ! i) < T"
    by (simp only: scan_None)
  with Cons have "\<not> timestamp (xs ! 0) < T" by blast
  with Cons show ?thesis by simp
qed

subsection \<open>Claims on the buffer\<close>

text \<open>
  C1 (as amended). The claim as stated asks only that each incoming batch be sorted and
  clock-corrected; the handler of a live batch concatenates it to the tail without looking
  at the tail, so a batch older than the tail breaks the order (the counterexample is
  below). What holds: for every sequence of events in which
  each live batch, once corrected, holds no trade older than the last trade of the buffer
  it is appended to, and each history response is sorted by timestamp, the timestamps of
  the buffer are non-decreasing after every event.
\<close>

theorem buffer_ordering:
  assumes "buffer_sorted st" and "admissible_run debug es st"
  shows "list_all buffer_sorted (trace debug es st) \<and> buffer_sorted (run debug es st)"
  using assms
proof (induction es arbitrary: st)
  case Nil
  then show ?case by simp
next
  case (Cons ev es)
  from Cons.prems have "buffer_sorted (exec debug ev st)"
    by (simp add: buffer_sorted_exec)
  with Cons show ?case by simp
qed

theorem buffer_ordering_witness:
  "buffer_sorted (sample [100, 200]) \<and>
   admissible_run False
     [OnMessage 0 (WellFormed (JArr [trade_at 300, trade_at 250])),
      FetchThen False (map trade_at [50, 150, 400]), Trim 120] (sample [100, 200]) \<and>
   list_all buffer_sorted (trace False
     [OnMessage 0 (WellFormed (JArr [trade_at 300, trade_at 250])),
      FetchThen False (map trade_at [50, 150, 400]), Trim 120] (sample [100, 200])) \<and>
   map timestamp (trades (run False
     [OnMessage 0 (WellFormed (JArr [trade_at 300, trade_at 250])),
      FetchThen False (map trade_at [50, 150, 400]), Trim 120] (sample [100, 200])))
     = [200, 250, 300, 400]"
proof -
  let ?es = "[OnMessage 0 (WellFormed (JArr [trade_at 300, trade_at 250])),
      FetchThen False (map trade_at [50, 150, 400]), Trim 120]"
  have s: "buffer_sorted (sample [100, 200])"
    by code_simp
  have a: "admissible_run False ?es (sample [100, 200])"
    by code_simp
  have r: "map timestamp (trades (run False ?es (sample [100, 200]))) = [200, 250, 300, 400]"
    by code_simp
  from s a r buffer_ordering [OF s a] show ?thesis by simp
qed

text \<open>Two live batches of one trade each, the second older than the first: each is sorted,
  no correction is active, and the buffer ends out of order.\<close>

theorem buffer_ordering_counterexample:
  "sorted (map timestamp [trade_at 200]) \<and> sorted (map timestamp [trade_at 100]) \<and>
   \<not> delayed (initial ''ws://localhost:3000'') \<and>
   map timestamp (trades (run False
      [OnMessage 0 (WellFormed (JArr [trade_at 200])),
       OnMessage 0 (WellFormed (JArr [trade_at 100]))]
      (initial ''ws://localhost:3000''))) = [200, 100] \<and>
   \<not> buffer_sorted (run False
      [OnMessage 0 (WellFormed (JArr [trade_at 200])),
       OnMessage 0 (WellFormed (JArr [trade_at 100]))]
      (initial ''ws://localhost:3000''))"
  by code_simp

text \<open>
  C2. When the buffer is not empty and no replacement is asked for, the \<^verbatim>\<open>then\<close> handler
  of a fetch leaves in the buffer: the fetched trades (after clock correction) at or before
  the buffer's first timestamp, in their order; then the buffer; then the fetched trades at
  or after the buffer's last timestamp, in their order. A fetched trade strictly between the
  two boundaries is in neither part: the buffer holds as many copies of it after the merge
  as before. With a buffer at [100,200,300] and fetched trades at
  [50,150,250,350] the buffer becomes [50,100,200,300,350].
\<close>

theorem merge_boundary:
  assumes "trades st \<noteq> []"
  shows "trades (snd (fetch_then False resp st)) =
           filter (\<lambda>t. timestamp t \<le> timestamp (hd (trades st))) (correct st resp)
           @ trades st
           @ filter (\<lambda>t. timestamp (last (trades st)) \<le> timestamp t) (correct st resp)
       \<and> (timestamp (hd (trades st)) < timestamp x
            \<and> timestamp x < timestamp (last (trades st))
          \<longrightarrow> count_list (trades (snd (fetch_then False resp st))) x
                = count_list (trades st) x)
       \<and> (map timestamp (trades st) = [100, 200, 300]
            \<and> map timestamp (correct st resp) = [50, 150, 250, 350]
          \<longrightarrow> map timestamp (trades (snd (fetch_then False resp st)))
                = [50, 100, 200, 300, 350])"
proof -
  let ?xs = "correct st resp"
  have eq: "trades (snd (fetch_then False resp st)) =
           filter (\<lambda>t. timestamp t \<le> timestamp (hd (trades st))) ?xs
           @ trades st
           @ filter (\<lambda>t. timestamp (last (trades st)) \<le> timestamp t) ?xs"
    using assms by (simp add: fetch_then_trades merge_trades_eq)
  have ex: "map timestamp (trades (snd (fetch_then False resp st))) = [50, 100, 200, 300, 350]"
    if b: "map timestamp (trades st) = [100, 200, 300]"
      and r: "map timestamp ?xs = [50, 150, 250, 350]"
  proof -
    from b obtain b1 b2 b3 where buf: "trades st = [b1, b2, b3]"
      and tb: "timestamp b1 = 100" "timestamp b2 = 200" "timestamp b3 = 300"
      by (auto simp: map_eq_Cons_conv)
    from r obtain x1 x2 x3 x4 where xs: "?xs = [x1, x2, x3, x4]"
      and tx: "timestamp x1 = 50" "timestamp x2 = 150" "timestamp x3 = 250"
        "timestamp x4 = 350"
      by (auto simp: map_eq_Cons_conv)
    show ?thesis unfolding eq unfolding xs buf by (simp add: tb tx)
  qed
  have between: "count_list (trades (snd (fetch_then False resp st))) x
                = count_list (trades st) x"
    if "timestamp (hd (trades st)) < timestamp x \<and> timestamp x < timestamp (last (trades st))"
    using that unfolding eq by simp
  show ?thesis
  proof (intro conjI impI)
    show "trades (snd (fetch_then False resp st)) =
           filter (\<lambda>t. timestamp t \<le> timestamp (hd (trades st))) ?xs
           @ trades st
           @ filter (\<lambda>t. timestamp (last (trades st)) \<le> timestamp t) ?xs"
      by (rule eq)
  next
    assume "timestamp (hd (trades st)) < timestamp x
            \<and> timestamp x < timestamp (last (trades st))"
    then show "count_list (trades (snd (fetch_then False resp st))) x = count_list (trades st) x"
      by (rule between)
  next
    assume "map timestamp (trades st) = [100, 200, 300]
            \<and> map timestamp ?xs = [50, 150, 250, 350]"
    then show "map timestamp (trades (snd (fetch_then False resp st)))
                = [50, 100, 200, 300, 350]"
      using ex by (elim conjE)
  qed
qed

theorem merge_boundary_witness:
  "trades (sample [100, 200, 300]) \<noteq> []
   \<and> map timestamp (trades (sample [100, 200, 300])) = [100, 200, 300]
   \<and> map timestamp (correct (sample [100, 200, 300]) (map trade_at [50, 150, 250, 350]))
       = [50, 150, 250, 350]
   \<and> trades (snd (fetch_then False (map trade_at [50, 150, 250, 350])
        (sample [100, 200, 300]))) = map trade_at [50, 100, 200, 300, 350]
   \<and> timestamp (hd (trades (sample [100, 200, 300]))) < timestamp (trade_at 150)
   \<and> timestamp (trade_at 150) < timestamp (last (trades (sample [100, 200, 300])))
   \<and> count_list (trades (snd (fetch_then False (map trade_at [50, 150, 250, 350])
        (sample [100, 200, 300])))) (trade_at 150) = 0"
proof -
  have ne: "trades (sample [100, 200, 300]) \<noteq> []"
    by code_simp
  have b: "map timestamp (trades (sample [100, 200, 300])) = [100, 200, 300]"
    by code_simp
  have r: "map timestamp (correct (sample [100, 200, 300]) (map trade_at [50, 150, 250, 350]))
       = [50, 150, 250, 350]"
    by code_simp
  have f: "filter (\<lambda>t. timestamp t \<le> timestamp (hd (trades (sample [100, 200, 300]))))
             (correct (sample [100, 200, 300]) (map trade_at [50, 150, 250, 350]))
           @ trades (sample [100, 200, 300])
           @ filter (\<lambda>t. timestamp (last (trades (sample [100, 200, 300]))) \<le> timestamp t)
             (correct (sample [100, 200, 300]) (map trade_at [50, 150, 250, 350]))
           = map trade_at [50, 100, 200, 300, 350]"
    by code_simp
  have lo: "timestamp (hd (trades (sample [100, 200, 300]))) < timestamp (trade_at 150)"
    and hi: "timestamp (trade_at 150) < timestamp (last (trades (sample [100, 200, 300])))"
    and z: "count_list (trades (sample [100, 200, 300])) (trade_at 150) = 0"
    by code_simp+
  note T = merge_boundary [OF ne, of "map trade_at [50, 150, 250, 350]" "trade_at 150"]
  from T f have m: "trades (snd (fetch_then False (map trade_at [50, 150, 250, 350])
        (sample [100, 200, 300]))) = map trade_at [50, 100, 200, 300, 350]"
    by simp
  from T lo hi have "count_list (trades (snd (fetch_then False
        (map trade_at [50, 150, 250, 350]) (sample [100, 200, 300])))) (trade_at 150)
      = count_list (trades (sample [100, 200, 300])) (trade_at 150)"
    by blast
  with z have c: "count_list (trades (snd (fetch_then False
        (map trade_at [50, 150, 250, 350]) (sample [100, 200, 300])))) (trade_at 150) = 0"
    by (simp only:)
  from ne b r m lo hi c show ?thesis by (intro conjI)
qed

text \<open>
  C3. On a buffer ordered by timestamp, \<^verbatim>\<open>trim(T)\<close> removes exactly the longest prefix of
  trades with timestamp below \<open>T\<close>: what stays is what \<open>dropWhile\<close> leaves, and the buffer
  was that prefix followed by what stays. When the buffer is empty or \<open>T\<close> is at most the
  first timestamp, nothing changes (no notification either); when \<open>T\<close> is above every
  timestamp, the buffer becomes empty.
\<close>

theorem trim_maximal_prefix:
  assumes "sorted (map timestamp (trades st))"
  shows "trades (trim T st) = dropWhile (\<lambda>t. timestamp t < T) (trades st)
       \<and> trades st = takeWhile (\<lambda>t. timestamp t < T) (trades st) @ trades (trim T st)
       \<and> (trades st = [] \<or> T \<le> timestamp (hd (trades st)) \<longrightarrow> trim T st = st)
       \<and> ((\<forall>t \<in> set (trades st). timestamp t < T) \<longrightarrow> trades (trim T st) = [])"
proof -
  let ?P = "\<lambda>t. timestamp t < T"
  have eq: "trades (trim T st) = dropWhile ?P (trades st)"
  proof (cases "scan (trades st) T (length (trades st))")
    case None
    then show ?thesis by (simp add: trim_def scan_None_dropWhile)
  next
    case (Some i)
    with assms show ?thesis by (simp add: trim_def emit_def scan_sorted_drop)
  qed
  have noop: "trim T st = st" if h: "trades st = [] \<or> T \<le> timestamp (hd (trades st))"
  proof -
    have "\<not> timestamp (trades st ! i) < T" if i: "i < length (trades st)" for i
    proof -
      from i have ne: "trades st \<noteq> []" by auto
      with h have le: "T \<le> timestamp (hd (trades st))" by simp
      from assms i have "map timestamp (trades st) ! 0 \<le> map timestamp (trades st) ! i"
        by (rule_tac sorted_nth_mono) auto
      with i ne le show ?thesis by (simp add: hd_conv_nth)
    qed
    then have "scan (trades st) T (length (trades st)) = None"
      by (simp add: scan_None)
    then show ?thesis by (simp add: trim_def)
  qed
  have empty: "trades (trim T st) = []" if "\<forall>t \<in> set (trades st). timestamp t < T"
    using that by (simp add: eq)
  from eq noop empty show ?thesis by simp
qed

theorem trim_maximal_prefix_witness:
  "sorted (map timestamp (trades (sample [100, 200, 200, 300])))
   \<and> map timestamp (trades (trim 250 (sample [100, 200, 200, 300]))) = [300]
   \<and> trim 100 (sample [100, 200, 200, 300]) = sample [100, 200, 200, 300]
   \<and> trim 7 (sample []) = sample []
   \<and> trades (trim 301 (sample [100, 200, 200, 300])) = []"
proof -
  have s: "sorted (map timestamp (trades (sample [100, 200, 200, 300])))"
    and e: "sorted (map timestamp (trades (sample [])))"
    by code_simp+
  have "dropWhile (\<lambda>t. timestamp t < 250) (trades (sample [100, 200, 200, 300]))
          = [trade_at 300]"
    by code_simp
  with trim_maximal_prefix [OF s, of 250]
  have a: "map timestamp (trades (trim 250 (sample [100, 200, 200, 300]))) = [300]"
    by (simp add: trade_at_def)
  have "100 \<le> timestamp (hd (trades (sample [100, 200, 200, 300])))"
    by code_simp
  with trim_maximal_prefix [OF s, of 100]
  have b: "trim 100 (sample [100, 200, 200, 300]) = sample [100, 200, 200, 300]"
    by simp
  have "trades (sample []) = []"
    by code_simp
  with trim_maximal_prefix [OF e, of 7]
  have c: "trim 7 (sample []) = sample []"
    by simp
  have "\<forall>t \<in> set (trades (sample [100, 200, 200, 300])). timestamp t < 301"
    by code_simp
  with trim_maximal_prefix [OF s, of 301]
  have d: "trades (trim 301 (sample [100, 200, 200, 300])) = []"
    by simp
  from s a b c d show ?thesis by simp
qed

section \<open>Clock correction\<close>

lemma reconnect_clock [simp]:
  "delay (reconnect st) = delay st" "delayed (reconnect st) = delayed st"
  by (simp_all add: reconnect_def clearTimeout_def setTimeout_def Let_def split: option.splits)

lemma control_switch_clock:
  "c_type c \<noteq> Some ''welcome'' \<Longrightarrow>
     delay (control_switch now debug c st) = delay st \<and>
     delayed (control_switch now debug c st) = delayed st"
  by (simp add: control_switch_def exchange_connected_def exchange_disconnected_def Let_def)

lemma trim_clock [simp]:
  "delay (trim T st) = delay st" "delayed (trim T st) = delayed st"
  by (simp_all add: trim_def split: option.splits)

lemma exec_clock:
  assumes "\<not> is_welcome ev"
  shows "delay (exec debug ev st) = delay st \<and> delayed (exec debug ev st) = delayed st"
proof (cases ev)
  case (OnMessage now p)
  show ?thesis
  proof (cases p)
    case Malformed
    with OnMessage show ?thesis by (simp add: exec_def onmessage_def)
  next
    case (WellFormed data)
    with OnMessage assms show ?thesis
      by (cases data)
        (simp_all add: exec_def onmessage_def receive_trades_def Let_def control_switch_clock)
  qed
next
  case (Fetch now f t w)
  then show ?thesis
    by (simp add: exec_def fetch_def Let_def split: prod.splits)
next
  case (FetchThen w xs)
  then show ?thesis by (simp add: exec_def fetch_then_def Let_def)
qed (auto simp: exec_def connect_def disconnect_def send_def
      onopen_def onclose_def onerror_def timer_fire_def fetch_catch_def
      split: option.splits)

lemma run_clock:
  "list_all (\<lambda>ev. \<not> is_welcome ev) es \<Longrightarrow>
     delay (run debug es st) = delay st \<and> delayed (run debug es st) = delayed st"
  by (induction es arbitrary: st) (simp_all add: exec_clock)

lemma on_welcome_clock:
  "delay (on_welcome now c st) =
     (case c_timestamp c of None \<Rightarrow> 0 | Some ts \<Rightarrow> if ts \<noteq> 0 then ts - now else 0)"
  "delayed (on_welcome now c st) = (2000 < \<bar>delay (on_welcome now c st)\<bar>)"
  by (simp_all add: on_welcome_def Let_def)

text \<open>
  C4. With the local clock at or after the epoch, a welcome frame whose timestamp is the local
  time plus 5000 leaves \<^verbatim>\<open>delay\<close> at 5000 and \<^verbatim>\<open>delayed\<close> true. After any further events
  none of which is a welcome frame, both still hold; a live batch is then stored as its
  sorted trades with 5000 subtracted from each timestamp, and a fetch resolves with, and
  stores (by replacement or by merge), its trades with 5000 subtracted from each timestamp.
\<close>

theorem clock_correction:
  assumes "0 \<le> now" and "c_type c = Some ''welcome''"
    and "c_timestamp c = Some (now + 5000)"
    and "list_all (\<lambda>ev. \<not> is_welcome ev) es"
    and "xs \<noteq> []"
  shows "onmessage now debug (WellFormed (JObj c)) st = Inr (control_switch now debug c st)
       \<and> delay (control_switch now debug c st) = 5000
       \<and> delayed (control_switch now debug c st)
       \<and> delay (run debug es (control_switch now debug c st)) = 5000
       \<and> delayed (run debug es (control_switch now debug c st))
       \<and> trades (exec debug (OnMessage now' (WellFormed (JArr xs)))
            (run debug es (control_switch now debug c st)))
          = trades (run debug es (control_switch now debug c st))
            @ map (shift 5000) (sort_key timestamp xs)
       \<and> fst (fetch_then w resp (run debug es (control_switch now debug c st)))
          = map (shift 5000) resp
       \<and> trades (snd (fetch_then w resp (run debug es (control_switch now debug c st))))
          = (if w \<or> trades (run debug es (control_switch now debug c st)) = []
             then map (shift 5000) resp
             else merge_trades (trades (run debug es (control_switch now debug c st)))
                    (map (shift 5000) resp))"
proof -
  let ?s1 = "control_switch now debug c st"
  let ?s2 = "run debug es ?s1"
  have m: "onmessage now debug (WellFormed (JObj c)) st = Inr ?s1"
    by (simp add: onmessage_def)
  have s1: "?s1 = on_welcome now c st"
    using assms(2) by (simp add: control_switch_def)
  have d1: "delay ?s1 = 5000"
    using assms(1,3) by (simp add: s1 on_welcome_clock)
  have e1: "delayed ?s1"
    unfolding s1 on_welcome_clock(2) using d1 unfolding s1 by simp
  have d2: "delay ?s2 = 5000" and e2: "delayed ?s2"
    using run_clock [OF assms(4), of debug ?s1] d1 e1 by simp_all
  have c2: "correct ?s2 ys = map (shift 5000) ys" for ys
    using d2 e2 by (simp add: correct_def)
  have live: "trades (exec debug (OnMessage now' (WellFormed (JArr xs))) ?s2)
          = trades ?s2 @ map (shift 5000) (sort_key timestamp xs)"
    using assms(5) by (simp add: exec_def onmessage_def receive_trades_trades c2)
  have h1: "fst (fetch_then w resp ?s2) = map (shift 5000) resp"
    by (simp add: fetch_then_def Let_def c2)
  have h2: "trades (snd (fetch_then w resp ?s2))
          = (if w \<or> trades ?s2 = [] then map (shift 5000) resp
             else merge_trades (trades ?s2) (map (shift 5000) resp))"
    by (simp only: fetch_then_trades c2)
  from m d1 e1 d2 e2 live h1 h2 show ?thesis by (intro conjI)
qed

theorem clock_correction_witness:
  "(0::int) \<le> 1000
   \<and> c_type (welcome_at 6000) = Some ''welcome''
   \<and> c_timestamp (welcome_at 6000) = Some (1000 + 5000)
   \<and> list_all (\<lambda>ev. \<not> is_welcome ev)
        [OnClose, OnMessage 1500 (WellFormed (JObj (control_of ''pair''))), Trim 50]
   \<and> [trade_at 9000, trade_at 8000] \<noteq> []
   \<and> delay (run False
        [OnClose, OnMessage 1500 (WellFormed (JObj (control_of ''pair''))), Trim 50]
        (control_switch 1000 False (welcome_at 6000) (sample [100]))) = 5000
   \<and> delayed (run False
        [OnClose, OnMessage 1500 (WellFormed (JObj (control_of ''pair''))), Trim 50]
        (control_switch 1000 False (welcome_at 6000) (sample [100])))
   \<and> map timestamp (trades (exec False
        (OnMessage 2000 (WellFormed (JArr [trade_at 9000, trade_at 8000])))
        (run False
          [OnClose, OnMessage 1500 (WellFormed (JObj (control_of ''pair''))), Trim 50]
          (control_switch 1000 False (welcome_at 6000) (sample [100])))))
      = [100, 3000, 4000]
   \<and> map timestamp (fst (fetch_then False (map trade_at [5050, 7000])
        (run False
          [OnClose, OnMessage 1500 (WellFormed (JObj (control_of ''pair''))), Trim 50]
          (control_switch 1000 False (welcome_at 6000) (sample [100])))))
      = [50, 2000]"
proof -
  let ?es = "[OnClose, OnMessage 1500 (WellFormed (JObj (control_of ''pair''))), Trim 50]"
  let ?s = "run False ?es (control_switch 1000 False (welcome_at 6000) (sample [100]))"
  have h1: "(0::int) \<le> 1000" by simp
  have h2: "c_type (welcome_at 6000) = Some ''welcome''" by code_simp
  have h3: "c_timestamp (welcome_at 6000) = Some (1000 + 5000)" by code_simp
  have h4: "list_all (\<lambda>ev. \<not> is_welcome ev) ?es" by code_simp
  have h5: "[trade_at 9000, trade_at 8000] \<noteq> []" by simp
  note T = clock_correction [OF h1 h2 h3 h4 h5, of False "sample [100]" 2000 False
      "map trade_at [5050, 7000]"]
  have b: "map timestamp (trades ?s) = [100]" by code_simp
  have l: "map timestamp (map (shift 5000) (sort_key timestamp [trade_at 9000, trade_at 8000]))
      = [3000, 4000]" by code_simp
  have r: "map timestamp (map (shift 5000) (map trade_at [5050, 7000])) = [50, 2000]"
    by code_simp
  from T have d: "delay ?s = 5000" and e: "delayed ?s"
    and live: "map timestamp (trades (exec False
        (OnMessage 2000 (WellFormed (JArr [trade_at 9000, trade_at 8000]))) ?s))
        = [100, 3000, 4000]"
    and hist: "map timestamp (fst (fetch_then False (map trade_at [5050, 7000]) ?s))
        = [50, 2000]"
    using b l r by simp_all
  from h1 h2 h3 h4 h5 d e live hist show ?thesis by (intro conjI)
qed

section \<open>Inbound frames\<close>

text \<open>
  C5 (as amended). The claim as stated has the handler drop such a frame without an error
  escaping it; the handler has no \<^verbatim>\<open>try\<close>, so the SyntaxError of \<^verbatim>\<open>JSON.parse\<close> escapes
  (the counterexample is below), and it throws by itself on a falsy value. What
  holds: on a payload that is not well-formed JSON (the empty text included) the handler
  throws a SyntaxError, and on a parsed value that is falsy (null, false, 0, the empty
  string) it throws "Unable to read socket message"; in both cases it throws before any
  assignment and any notification, so the state after the frame is the state before it.
\<close>

theorem malformed_frame_throws:
  "onmessage now debug Malformed st = Inl (SyntaxError, st)
   \<and> (\<not> truthy data \<longrightarrow> onmessage now debug (WellFormed data) st = Inl (UnableToRead, st))
   \<and> exec debug (OnMessage now Malformed) st = st
   \<and> (\<not> truthy data \<longrightarrow> exec debug (OnMessage now (WellFormed data)) st = st)"
proof -
  have parse: "onmessage now debug Malformed st = Inl (SyntaxError, st)"
    by (simp add: onmessage_def)
  have falsy: "onmessage now debug (WellFormed data) st = Inl (UnableToRead, st)"
    if "\<not> truthy data"
    using that by (simp add: onmessage_def)
  have "exec debug (OnMessage now Malformed) st = st"
    by (simp add: exec_def parse)
  moreover have "exec debug (OnMessage now (WellFormed data)) st = st" if "\<not> truthy data"
    by (simp add: exec_def falsy [OF that])
  ultimately show ?thesis using parse falsy by blast
qed

theorem malformed_frame_throws_witness:
  "\<not> truthy (JStr '''')
   \<and> onmessage 0 False (WellFormed (JStr '''')) (sample [100]) = Inl (UnableToRead, sample [100])
   \<and> exec False (OnMessage 0 (WellFormed (JStr ''''))) (sample [100]) = sample [100]"
  using malformed_frame_throws [of 0 False "sample [100]" "JStr ''''"] by simp

theorem malformed_frame_counterexample:
  "onmessage 0 False Malformed (initial ''ws://localhost:3000'')
     = Inl (SyntaxError, initial ''ws://localhost:3000'')"
  by (simp add: onmessage_def)

text \<open>The handler on frames of any shape is the handler on frames of the wire format
  where a value reads as one.\<close>

lemma those_length: "those xs = Some ys \<Longrightarrow> length ys = length xs"
  by (induction xs arbitrary: ys) (auto split: option.splits)

lemma onmessage_raw_batch:
  assumes "xs \<noteq> []" and "decode_batch (VArr xs) = Some ts"
  shows "onmessage_raw now debug other (Parsed (VArr xs)) st
           = onmessage now debug (WellFormed (JArr ts)) st"
proof -
  from assms(2) have "length ts = length xs"
    by (simp add: those_length)
  with assms(1) have "ts \<noteq> []" by auto
  with assms show ?thesis
    by (simp add: onmessage_raw_def onmessage_def)
qed

lemma onmessage_raw_control:
  assumes "has_case (VObj ms)" and "decode_control (VObj ms) = Some c"
  shows "onmessage_raw now debug other (Parsed (VObj ms)) st
           = onmessage now debug (WellFormed (JObj c)) st"
  using assms by (simp add: onmessage_raw_def onmessage_def)

text \<open>
  C6 (as amended). The claim as stated counts \<^verbatim>\<open>null\<close> among the frames dropped without
  error; the handler throws on it (the counterexample is below), as on every falsy value.
  Nor is a non-empty array dropped when it holds something else than trade tuples: the
  test for the array branch looks at nothing but \<^verbatim>\<open>Array.isArray(data) && data.length\<close>.
  What holds: every parsed frame, of any shape, that is truthy and is neither a non-empty
  array nor an object whose type is one of welcome, pair, exchange_connected,
  exchange_disconnected, exchange_error (an empty array, an object of another type or of
  none, true, a non-zero number, a non-empty string) is dropped: the handler returns, no
  error, with the state, notifications included, as it was.
\<close>

theorem unrecognized_frame_dropped:
  assumes "truthy_value data" and "\<not> is_batch data" and "\<not> has_case data"
  shows "onmessage_raw now debug other (Parsed data) st = Inr st"
proof -
  have "onmessage_raw now debug other (Parsed data) st =
      (if \<not> truthy_value data then Inl (UnableToRead, st)
       else if is_batch data then
         (case decode_batch data of
            Some xs \<Rightarrow> Inr (receive_trades xs st)
          | None \<Rightarrow> other data st)
       else if has_case data then
         (case decode_control data of
            Some c \<Rightarrow> Inr (control_switch now debug c st)
          | None \<Rightarrow> other data st)
       else Inr st)"
    by (simp add: onmessage_raw_def)
  also from assms(1) have "\<dots> =
      (if is_batch data then
         (case decode_batch data of
            Some xs \<Rightarrow> Inr (receive_trades xs st)
          | None \<Rightarrow> other data st)
       else if has_case data then
         (case decode_control data of
            Some c \<Rightarrow> Inr (control_switch now debug c st)
          | None \<Rightarrow> other data st)
       else Inr st)"
    by simp
  also from assms(2,3) have "\<dots> = Inr st"
    by simp
  finally show ?thesis .
qed

theorem unrecognized_frame_dropped_witness:
  "truthy_value (VObj [(''type'', VStr ''ping''), (''id'', VNum 7)])
   \<and> \<not> is_batch (VObj [(''type'', VStr ''ping''), (''id'', VNum 7)])
   \<and> \<not> has_case (VObj [(''type'', VStr ''ping''), (''id'', VNum 7)])
   \<and> onmessage_raw 0 True other_ignored
        (Parsed (VObj [(''type'', VStr ''ping''), (''id'', VNum 7)])) (sample [100])
       = Inr (sample [100])
   \<and> truthy_value (VObj [(''type'', VNum 5)])
   \<and> \<not> is_batch (VObj [(''type'', VNum 5)])
   \<and> \<not> has_case (VObj [(''type'', VNum 5)])
   \<and> onmessage_raw 0 True other_ignored (Parsed (VObj [(''type'', VNum 5)])) (sample [100])
       = Inr (sample [100])
   \<and> truthy_value (VArr []) \<and> \<not> is_batch (VArr []) \<and> \<not> has_case (VArr [])
   \<and> onmessage_raw 0 True other_ignored (Parsed (VArr [])) (sample [100])
       = Inr (sample [100])
   \<and> truthy_value (VNum (3 / 2)) \<and> \<not> is_batch (VNum (3 / 2)) \<and> \<not> has_case (VNum (3 / 2))
   \<and> onmessage_raw 0 True other_ignored (Parsed (VNum (3 / 2))) (sample [100])
       = Inr (sample [100])
   \<and> truthy_value (VStr ''ok'') \<and> \<not> is_batch (VStr ''ok'') \<and> \<not> has_case (VStr ''ok'')
   \<and> onmessage_raw 0 True other_ignored (Parsed (VStr ''ok'')) (sample [100])
       = Inr (sample [100])"
proof -
  have a: "truthy_value (VObj [(''type'', VStr ''ping''), (''id'', VNum 7)])"
    "\<not> is_batch (VObj [(''type'', VStr ''ping''), (''id'', VNum 7)])"
    "\<not> has_case (VObj [(''type'', VStr ''ping''), (''id'', VNum 7)])"
    by (simp_all add: has_case_def property_def recognized_def)
  have b: "truthy_value (VObj [(''type'', VNum 5)])"
    "\<not> is_batch (VObj [(''type'', VNum 5)])"
    "\<not> has_case (VObj [(''type'', VNum 5)])"
    by (simp_all add: has_case_def property_def)
  have c: "truthy_value (VArr [])" "\<not> is_batch (VArr [])" "\<not> has_case (VArr [])"
    by (simp_all add: has_case_def)
  have d: "truthy_value (VNum (3 / 2))" "\<not> is_batch (VNum (3 / 2))"
    "\<not> has_case (VNum (3 / 2))"
    by (simp_all add: has_case_def)
  have e: "truthy_value (VStr ''ok'')" "\<not> is_batch (VStr ''ok'')" "\<not> has_case (VStr ''ok'')"
    by (simp_all add: has_case_def)
  show ?thesis
    by (intro conjI)
      (fact a b c d e
        unrecognized_frame_dropped [OF a, of 0 True other_ignored "sample [100]"]
        unrecognized_frame_dropped [OF b, of 0 True other_ignored "sample [100]"]
        unrecognized_frame_dropped [OF c, of 0 True other_ignored "sample [100]"]
        unrecognized_frame_dropped [OF d, of 0 True other_ignored "sample [100]"]
        unrecognized_frame_dropped [OF e, of 0 True other_ignored "sample [100]"])+
qed

theorem unrecognized_frame_counterexample:
  "\<not> is_batch VNull \<and> \<not> has_case VNull
   \<and> onmessage_raw 0 False other_ignored (Parsed VNull) (initial ''ws://localhost:3000'')
      = Inl (UnableToRead, initial ''ws://localhost:3000'')"
  by (simp add: onmessage_raw_def has_case_def)

section \<open>Reconnection\<close>

subsection \<open>Multiplication by 1.1 in doubles\<close>

lemma bitlen_powi:
  assumes "0 < (n::int)"
  shows "(2::rat) powi (bitlen n - 1) \<le> of_int n" and "(of_int n :: rat) < 2 powi bitlen n"
proof -
  from bitlen_bounds [OF assms]
  have lo: "2 ^ nat (bitlen n - 1) \<le> n" and hi: "n < 2 ^ nat (bitlen n)"
    by simp_all
  from assms have b: "1 \<le> bitlen n"
    using bitlen_eq_zero_iff [of n] bitlen_nonneg [of n] by linarith
  from lo have "(of_int (2 ^ nat (bitlen n - 1)) :: rat) \<le> of_int n"
    by (simp only: of_int_le_iff)
  with b show "(2::rat) powi (bitlen n - 1) \<le> of_int n"
    by (simp add: power_int_nonneg_exp)
  from hi have "(of_int n :: rat) < of_int (2 ^ nat (bitlen n))"
    by (simp only: of_int_less_iff)
  with b show "(of_int n :: rat) < 2 powi bitlen n"
    by (simp add: power_int_nonneg_exp)
qed

lemma floor_log2_bounds:
  assumes "0 < a"
  shows "2 powi floor_log2 a \<le> a" and "a < 2 powi (floor_log2 a + 1)"
proof -
  obtain n d where q: "quotient_of a = (n, d)"
    by (cases "quotient_of a") auto
  then have d: "0 < d" and a: "a = of_int n / of_int d"
    by (simp_all add: quotient_of_denom_pos quotient_of_div)
  from assms d a have n: "0 < n"
    by (simp add: zero_less_divide_iff)
  let ?k = "bitlen n - bitlen d"
  note N = bitlen_powi [OF n] and D = bitlen_powi [OF d]
  have dpos: "(0::rat) < of_int d" using d by simp
  have "a < 2 powi bitlen n / 2 powi (bitlen d - 1)"
    unfolding a using N(2) D(1) dpos n
    by (intro frac_less) (simp_all add: less_imp_le)
  also have "\<dots> = 2 powi (?k + 1)"
    by (simp add: power_int_diff [symmetric] algebra_simps)
  finally have up: "a < 2 powi (?k + 1)" .
  have "2 powi (bitlen n - 1) / 2 powi bitlen d < a"
    unfolding a using N(1) D(2) dpos n
    by (intro frac_less2) simp_all
  moreover have "2 powi (bitlen n - 1) / 2 powi bitlen d = (2::rat) powi (?k - 1)"
    by (simp add: power_int_diff [symmetric] algebra_simps)
  ultimately have low: "2 powi (?k - 1) \<le> a" by simp
  have e: "floor_log2 a = (if 2 powi ?k \<le> a then ?k else ?k - 1)"
    by (simp add: floor_log2_def q Let_def)
  show "2 powi floor_log2 a \<le> a"
    using low by (simp add: e)
  show "a < 2 powi (floor_log2 a + 1)"
    using up by (simp add: e not_le)
qed

lemma round_half_even_near:
  "\<bar>of_int (round_half_even x) - x\<bar> \<le> 1 / 2"
proof -
  have "of_int \<lfloor>x\<rfloor> \<le> x" "x < of_int \<lfloor>x\<rfloor> + 1"
    by linarith+
  then show ?thesis
    by (auto simp: round_half_even_def Let_def abs_le_iff)
qed


lemma round_double_normal:
  assumes "2 powi (- 1022) \<le> a"
  shows "round_double a = PlusInfinity
       \<or> (\<exists>r. round_double a = Finite r \<and> a * (1 - rho) \<le> r \<and> r \<le> a * (1 + rho))"
proof -
  have "(0::rat) < 2 powi (- 1022)" by (rule zero_less_power_int) simp
  with assms have pos: "0 < a" by linarith
  let ?e = "floor_log2 a"
  note B = floor_log2_bounds [OF pos]
  have e: "- 1022 \<le> ?e"
  proof (rule ccontr)
    assume "\<not> - 1022 \<le> ?e"
    then have "?e + 1 \<le> - 1022" by simp
    then have "(2::rat) powi (?e + 1) \<le> 2 powi (- 1022)"
      by (intro power_int_increasing) simp_all
    with B(2) assms show False by linarith
  qed
  define ulp :: rat where "ulp = 2 powi (?e - 52)"
  define m where "m = round_half_even (a / ulp)"
  have ulp_pos: "0 < ulp"
    unfolding ulp_def by (rule zero_less_power_int) simp
  have "ulp = 2 powi ?e / 2 ^ 52"
    unfolding ulp_def by (simp add: power_int_diff)
  with B(1) have ulp_le: "ulp \<le> a / 2 ^ 52"
    by (simp add: divide_right_mono)
  have E: "(of_int m - a / ulp) * ulp = of_int m * ulp - a"
    using ulp_pos by (simp add: left_diff_distrib)
  have "\<bar>of_int m * ulp - a\<bar> = \<bar>(of_int m - a / ulp) * ulp\<bar>"
    by (simp only: E)
  also have "\<dots> = \<bar>of_int m - a / ulp\<bar> * \<bar>ulp\<bar>"
    by (rule abs_mult)
  also have "\<bar>ulp\<bar> = ulp"
    using ulp_pos by simp
  finally have D: "\<bar>of_int m * ulp - a\<bar> = \<bar>of_int m - a / ulp\<bar> * ulp" .
  have "\<bar>of_int m - a / ulp\<bar> \<le> 1 / 2"
    unfolding m_def by (rule round_half_even_near)
  then have "\<bar>of_int m - a / ulp\<bar> * ulp \<le> 1 / 2 * ulp"
    using ulp_pos by (intro mult_right_mono) simp_all
  with D have "\<bar>of_int m * ulp - a\<bar> \<le> ulp / 2" by simp
  also have "\<dots> \<le> a * rho"
    using ulp_le by (simp add: rho_def)
  finally have near: "\<bar>of_int m * ulp - a\<bar> \<le> a * rho" .
  have rd: "round_double a =
      (if max_double < of_int m * ulp then PlusInfinity else Finite (of_int m * ulp))"
    using pos e by (simp add: round_double_def Let_def max_def m_def ulp_def)
  show ?thesis
  proof (cases "max_double < of_int m * ulp")
    case True
    with rd show ?thesis by simp
  next
    case False
    with rd have "round_double a = Finite (of_int m * ulp)" by simp
    moreover from near have "a * (1 - rho) \<le> of_int m * ulp" "of_int m * ulp \<le> a * (1 + rho)"
      by (simp_all add: abs_le_iff algebra_simps)
    ultimately show ?thesis by blast
  qed
qed


lemma rho_bounds: "0 < rho" "rho < 1"
  by (simp_all add: rho_def)

lemma double_1_1_bounds: "11 / 10 \<le> double_1_1" "double_1_1 \<le> 11 / 10 * (1 + rho)"
  by (simp_all add: double_1_1_def rho_def)

lemma factor_bounds: "1 \<le> lo_factor" "109 / 100 \<le> lo_factor" "0 \<le> hi_factor"
  by (simp_all add: lo_factor_def hi_factor_def rho_def)

lemma times_1_1_bounds:
  assumes "1 \<le> a"
  shows "times_1_1 (Finite a) = PlusInfinity
       \<or> (\<exists>r. times_1_1 (Finite a) = Finite r \<and> a * lo_factor \<le> r \<and> r \<le> a * hi_factor)"
proof -
  have "(2::rat) powi (- 1022) \<le> 1"
    by (simp add: power_int_minus inverse_le_1_iff)
  also have "1 \<le> a * double_1_1"
    using assms double_1_1_bounds(1) mult_mono [of 1 a 1 double_1_1] by simp
  finally have "2 powi (- 1022) \<le> a * double_1_1" .
  from round_double_normal [OF this] show ?thesis
  proof
    assume "round_double (a * double_1_1) = PlusInfinity"
    then show ?thesis by simp
  next
    assume "\<exists>r. round_double (a * double_1_1) = Finite r
      \<and> a * double_1_1 * (1 - rho) \<le> r \<and> r \<le> a * double_1_1 * (1 + rho)"
    then obtain r where r: "round_double (a * double_1_1) = Finite r"
      and lo: "a * double_1_1 * (1 - rho) \<le> r" and hi: "r \<le> a * double_1_1 * (1 + rho)"
      by blast
    have a0: "0 \<le> a" using assms by simp
    have "a * lo_factor = a * (11 / 10) * (1 - rho)"
      by (simp only: lo_factor_def mult.assoc)
    also have "\<dots> \<le> a * double_1_1 * (1 - rho)"
      using a0 rho_bounds double_1_1_bounds(1)
      by (intro mult_right_mono mult_left_mono) simp_all
    also note lo
    finally have L: "a * lo_factor \<le> r" .
    note hi
    also have "a * double_1_1 * (1 + rho) \<le> a * (11 / 10 * (1 + rho)) * (1 + rho)"
      using a0 rho_bounds double_1_1_bounds(2)
      by (intro mult_right_mono mult_left_mono) simp_all
    also have "\<dots> = a * hi_factor"
      by (simp only: hi_factor_def mult.assoc)
    finally have U: "r \<le> a * hi_factor" .
    from r L U show ?thesis by simp
  qed
qed

lemma times_1_1_funpow_bounds:
  assumes "1 \<le> d"
  shows "(times_1_1 ^^ n) (Finite d) = PlusInfinity
       \<or> (\<exists>r. (times_1_1 ^^ n) (Finite d) = Finite r
              \<and> d * lo_factor ^ n \<le> r \<and> r \<le> d * hi_factor ^ n)"
proof (induction n)
  case 0
  then show ?case by simp
next
  case (Suc n)
  from Suc show ?case
  proof
    assume "(times_1_1 ^^ n) (Finite d) = PlusInfinity"
    then show ?thesis by simp
  next
    assume "\<exists>r. (times_1_1 ^^ n) (Finite d) = Finite r
              \<and> d * lo_factor ^ n \<le> r \<and> r \<le> d * hi_factor ^ n"
    then obtain r where r: "(times_1_1 ^^ n) (Finite d) = Finite r"
      and lo: "d * lo_factor ^ n \<le> r"
      and hi: "r \<le> d * hi_factor ^ n"
      by blast
    have "1 \<le> lo_factor ^ n"
      using factor_bounds(1) by (rule one_le_power)
    with assms have "1 * 1 \<le> d * lo_factor ^ n"
      by (intro mult_mono) simp_all
    with lo have r1: "1 \<le> r" by simp
    from times_1_1_bounds [OF r1] show ?thesis
    proof
      assume "times_1_1 (Finite r) = PlusInfinity"
      with r show ?thesis by simp
    next
      assume "\<exists>s. times_1_1 (Finite r) = Finite s \<and> r * lo_factor \<le> s \<and> s \<le> r * hi_factor"
      then obtain s where s: "times_1_1 (Finite r) = Finite s"
        and slo: "r * lo_factor \<le> s" and shi: "s \<le> r * hi_factor"
        by blast
      have "d * lo_factor ^ Suc n = d * lo_factor ^ n * lo_factor"
        by (simp only: power_Suc2 mult.assoc)
      also have "\<dots> \<le> r * lo_factor"
        using lo factor_bounds(1) by (intro mult_right_mono) simp_all
      also note slo
      finally have L: "d * lo_factor ^ Suc n \<le> s" .
      note shi
      also have "r * hi_factor \<le> d * hi_factor ^ n * hi_factor"
        using hi factor_bounds(3) by (intro mult_right_mono)
      also have "\<dots> = d * hi_factor ^ Suc n"
        by (simp only: power_Suc2 mult.assoc)
      finally have U: "s \<le> d * hi_factor ^ Suc n" .
      from r s L U show ?thesis by simp
    qed
  qed
qed

lemma bernoulli_rat: "0 \<le> x \<Longrightarrow> 1 + of_nat n * x \<le> (1 + x :: rat) ^ n"
proof (induction n)
  case 0
  then show ?case by simp
next
  case (Suc n)
  have "1 + of_nat (Suc n) * x \<le> (1 + of_nat n * x) * (1 + x)"
    using Suc.prems by (simp add: algebra_simps)
  also have "\<dots> \<le> (1 + x) ^ n * (1 + x)"
    using Suc by (intro mult_right_mono) simp_all
  finally show ?case by (simp add: mult.commute)
qed

lemma times_1_1_unbounded:
  assumes "1 \<le> d"
  shows "\<exists>n. exceeds ((times_1_1 ^^ n) (Finite d)) B"
proof -
  obtain k where k: "B < of_nat k" using reals_Archimedean2 by blast
  let ?n = "100 * k"
  have "(of_nat k :: rat) \<le> 1 + of_nat ?n * (9 / 100)" by simp
  also have "\<dots> \<le> (1 + 9 / 100) ^ ?n"
    by (rule bernoulli_rat) simp
  also have "\<dots> \<le> lo_factor ^ ?n"
    using factor_bounds(2) by (intro power_mono) simp_all
  also have "\<dots> \<le> d * lo_factor ^ ?n"
    using assms factor_bounds(1) by (simp add: mult_le_cancel_right1)
  finally have big: "B < d * lo_factor ^ ?n"
    using k by simp
  from times_1_1_funpow_bounds [OF assms, of ?n] show ?thesis
  proof
    assume "(times_1_1 ^^ ?n) (Finite d) = PlusInfinity"
    then have "exceeds ((times_1_1 ^^ ?n) (Finite d)) B" by simp
    then show ?thesis ..
  next
    assume "\<exists>r. (times_1_1 ^^ ?n) (Finite d) = Finite r
              \<and> d * lo_factor ^ ?n \<le> r \<and> r \<le> d * hi_factor ^ ?n"
    then obtain r where "(times_1_1 ^^ ?n) (Finite d) = Finite r"
      and "d * lo_factor ^ ?n \<le> r"
      by blast
    with big have "exceeds ((times_1_1 ^^ ?n) (Finite d)) B" by simp
    then show ?thesis ..
  qed
qed

text \<open>The first products, each checked against its exponent and its significand.\<close>

lemma floor_log2_unique:
  assumes "2 powi e \<le> a" and "a < 2 powi (e + 1)"
  shows "floor_log2 a = e"
proof -
  have "(0::rat) < 2 powi e" by (rule zero_less_power_int) simp
  with assms(1) have pos: "0 < a" by linarith
  note B = floor_log2_bounds [OF pos]
  have "\<not> floor_log2 a < e"
  proof
    assume "floor_log2 a < e"
    then have "floor_log2 a + 1 \<le> e" by simp
    then have "(2::rat) powi (floor_log2 a + 1) \<le> 2 powi e"
      by (intro power_int_increasing) simp_all
    with B(2) assms(1) show False by linarith
  qed
  moreover have "\<not> e < floor_log2 a"
  proof
    assume "e < floor_log2 a"
    then have "e + 1 \<le> floor_log2 a" by simp
    then have "(2::rat) powi (e + 1) \<le> 2 powi floor_log2 a"
      by (intro power_int_increasing) simp_all
    with B(1) assms(2) show False by linarith
  qed
  ultimately show ?thesis by simp
qed

lemma round_half_even_unique:
  assumes "\<bar>of_int m - x\<bar> < 1 / 2"
  shows "round_half_even x = m"
proof -
  have f: "of_int \<lfloor>x\<rfloor> \<le> x" "x < of_int \<lfloor>x\<rfloor> + 1"
    by linarith+
  from assms have "x - 1 / 2 < of_int m" "of_int m < x + 1 / 2"
    by linarith+
  with f have "(of_int m :: rat) < of_int \<lfloor>x\<rfloor> + 2" "(of_int \<lfloor>x\<rfloor> :: rat) < of_int m + 1"
    by linarith+
  then have "m < \<lfloor>x\<rfloor> + 2" "\<lfloor>x\<rfloor> < m + 1"
    by (simp_all only: of_int_less_iff [symmetric, where 'a = rat] of_int_add of_int_numeral of_int_1)
  then consider "m = \<lfloor>x\<rfloor>" | "m = \<lfloor>x\<rfloor> + 1" by linarith
  then show ?thesis
  proof cases
    case 1
    with assms have "x - of_int \<lfloor>x\<rfloor> < 1 / 2"
      by linarith
    with 1 show ?thesis by (simp add: round_half_even_def Let_def)
  next
    case 2
    with assms have "1 / 2 < x - of_int \<lfloor>x\<rfloor>"
      by linarith
    with 2 show ?thesis by (simp add: round_half_even_def Let_def)
  qed
qed

lemma round_double_certificate:
  assumes "2 powi e \<le> a" and "a < 2 powi (e + 1)" and "- 1022 \<le> e"
    and "\<bar>of_int m - a / 2 powi (e - 52)\<bar> < 1 / 2"
    and "of_int m * 2 powi (e - 52) \<le> max_double"
  shows "round_double a = Finite (of_int m * 2 powi (e - 52))"
proof -
  have "(0::rat) < 2 powi e" by (rule zero_less_power_int) simp
  with assms(1) have pos: "0 < a" by linarith
  have e: "floor_log2 a = e"
    using assms(1,2) by (rule floor_log2_unique)
  have m: "round_half_even (a / 2 powi (e - 52)) = m"
    using assms(4) by (rule round_half_even_unique)
  have mx: "max (floor_log2 a) (- 1022) = e"
    using assms(3) by (simp only: e max_absorb1)
  have "round_double a =
      (if max_double < of_int m * 2 powi (e - 52) then PlusInfinity
       else Finite (of_int m * 2 powi (e - 52)))"
    using pos unfolding round_double_def Let_def mx abs_of_pos [OF pos] m by simp
  with assms(5) show ?thesis by simp
qed

lemma double_1_1_literal: "round_double (11 / 10) = Finite double_1_1"
proof -
  have "round_double (11 / 10) = Finite (of_int 4953959590107546 * 2 powi (0 - 52))"
    by (rule round_double_certificate) (simp_all add: max_double_def)
  then show ?thesis by (simp add: double_1_1_def)
qed

lemma times_1_1_2000: "times_1_1 (Finite 2000) = Finite 2200"
proof -
  have "round_double (2000 * double_1_1) = Finite (of_int (2200 * 2 ^ 41) * 2 powi (11 - 52))"
    by (rule round_double_certificate) (simp_all add: max_double_def double_1_1_def)
  then show ?thesis by simp
qed

lemma times_1_1_5000: "times_1_1 (Finite 5000) = Finite 5500"
proof -
  have "round_double (5000 * double_1_1) = Finite (of_int (5500 * 2 ^ 40) * 2 powi (12 - 52))"
    by (rule round_double_certificate) (simp_all add: max_double_def double_1_1_def)
  then show ?thesis by simp
qed

lemma times_1_1_5500: "times_1_1 (Finite 5500) = Finite (6050 + 1 / 2 ^ 40)"
proof -
  have "round_double (5500 * double_1_1)
      = Finite (of_int (6050 * 2 ^ 40 + 1) * 2 powi (12 - 52))"
    by (rule round_double_certificate) (simp_all add: max_double_def double_1_1_def)
  then show ?thesis by (simp add: field_simps)
qed

subsection \<open>One call of reconnect\<close>

lemma emit_timer_fields [simp]:
  "timers (emit n st) = timers st" "next_timer (emit n st) = next_timer st"
  "reconnectionTimeout (emit n st) = reconnectionTimeout st"
  "reconnectionDelay (emit n st) = reconnectionDelay st"
  "socket (emit n st) = socket st" "socket_open (emit n st) = socket_open st"
  by (simp_all add: emit_def socket_open_def)

lemma reconnect_open [simp]: "socket_open st \<Longrightarrow> reconnect st = st"
  by (simp add: reconnect_def)

lemma reconnect_fields:
  assumes "\<not> socket_open st"
  shows "reconnectionDelay (reconnect st) = times_1_1 (reconnectionDelay st)"
    and "next_timer (reconnect st) = Suc (next_timer st)"
    and "reconnectionTimeout (reconnect st) = Some (next_timer st)"
    and "timers (reconnect st) =
           (case reconnectionTimeout st of
              None \<Rightarrow> timers st
            | Some h \<Rightarrow> filter (\<lambda>p. fst p \<noteq> h) (timers st))
           @ [(next_timer st, reconnectionDelay st)]"
  using assms
  by (simp_all add: reconnect_def clearTimeout_def setTimeout_def Let_def split: option.splits)

lemma reconnect_socket [simp]:
  "socket (reconnect st) = socket st" "socket_open (reconnect st) = socket_open st"
  by (simp_all add: reconnect_def clearTimeout_def setTimeout_def Let_def socket_open_def
      split: option.splits)

lemma last_scheduled_reconnect:
  "\<not> socket_open st \<Longrightarrow> last_scheduled (reconnect st) = reconnectionDelay st"
  by (simp add: last_scheduled_def reconnect_fields(4))

lemma reconnect_funpow:
  assumes "\<not> socket_open st"
  shows "\<not> socket_open ((reconnect ^^ n) st)
       \<and> reconnectionDelay ((reconnect ^^ n) st) = (times_1_1 ^^ n) (reconnectionDelay st)"
  using assms by (induction n) (simp_all add: reconnect_fields(1))

lemma last_scheduled_funpow:
  assumes "\<not> socket_open st" and "0 < n"
  shows "last_scheduled ((reconnect ^^ n) st) = (times_1_1 ^^ (n - 1)) (reconnectionDelay st)"
proof -
  from assms(2) obtain m where n: "n = Suc m" by (cases n) auto
  from reconnect_funpow [OF assms(1), of m] show ?thesis
    by (simp add: n last_scheduled_reconnect)
qed

subsection \<open>The delay along a run\<close>

lemma exec_backoff:
  assumes "\<not> is_open ev"
  shows "next_timer st \<le> next_timer (exec debug ev st)
       \<and> reconnectionDelay (exec debug ev st)
          = (times_1_1 ^^ (next_timer (exec debug ev st) - next_timer st)) (reconnectionDelay st)"
proof -
  have r: "next_timer s \<le> next_timer (reconnect s)
       \<and> reconnectionDelay (reconnect s)
          = (times_1_1 ^^ (next_timer (reconnect s) - next_timer s)) (reconnectionDelay s)" for s
    by (cases "socket_open s") (simp_all add: reconnect_fields)
  show ?thesis
  proof (cases ev)
    case Reconnect
    with r [of st] show ?thesis by (simp add: exec_def)
  next
    case OnClose
    show ?thesis
    proof (cases "connected st")
      case True
      with r [of "emit N_disconnected (emit (N_alert ConnectionLost) (st\<lparr>connected := False\<rparr>))"]
        OnClose show ?thesis by (simp add: exec_def onclose_def)
    next
      case False
      with r [of st] OnClose show ?thesis by (simp add: exec_def onclose_def)
    qed
  next
    case OnError
    with r [of "emit N_error (emit (N_alert ServerUnreachable) st)"] show ?thesis
      by (simp add: exec_def onerror_def)
  next
    case (OnMessage now p)
    show ?thesis
    proof (cases p)
      case Malformed
      with OnMessage show ?thesis by (simp add: exec_def onmessage_def)
    next
      case (WellFormed data)
      with OnMessage show ?thesis
        by (cases data)
          (simp_all add: exec_def onmessage_def receive_trades_def control_switch_def
            on_welcome_def exchange_connected_def exchange_disconnected_def Let_def)
    qed
  next
    case (Fetch now f t w)
    then show ?thesis by (simp add: exec_def fetch_def Let_def split: prod.splits)
  next
    case (FetchThen w xs)
    then show ?thesis by (simp add: exec_def fetch_then_def Let_def)
  next
    case (Trim T)
    then show ?thesis by (simp add: exec_def trim_def split: option.splits)
  next
    case OnOpen
    with assms show ?thesis by simp
  qed (auto simp: exec_def connect_def disconnect_def send_def timer_fire_def fetch_catch_def
        split: option.splits)
qed

lemma run_backoff:
  assumes "list_all (\<lambda>ev. \<not> is_open ev) es"
  shows "next_timer st \<le> next_timer (run debug es st)
       \<and> reconnectionDelay (run debug es st)
          = (times_1_1 ^^ (next_timer (run debug es st) - next_timer st)) (reconnectionDelay st)"
  using assms
proof (induction es arbitrary: st)
  case Nil
  then show ?case by simp
next
  case (Cons ev es)
  let ?s = "exec debug ev st"
  from Cons.prems have a: "next_timer st \<le> next_timer ?s"
    and b: "reconnectionDelay ?s
          = (times_1_1 ^^ (next_timer ?s - next_timer st)) (reconnectionDelay st)"
    using exec_backoff [of ev st debug] by simp_all
  from Cons.prems Cons.IH [of ?s] have c: "next_timer ?s \<le> next_timer (run debug es ?s)"
    and d: "reconnectionDelay (run debug es ?s)
          = (times_1_1 ^^ (next_timer (run debug es ?s) - next_timer ?s)) (reconnectionDelay ?s)"
    by simp_all
  from a c have "next_timer (run debug es ?s) - next_timer st
      = (next_timer (run debug es ?s) - next_timer ?s) + (next_timer ?s - next_timer st)"
    by simp
  then have "(times_1_1 ^^ (next_timer (run debug es ?s) - next_timer st)) (reconnectionDelay st)
      = (times_1_1 ^^ (next_timer (run debug es ?s) - next_timer ?s))
          ((times_1_1 ^^ (next_timer ?s - next_timer st)) (reconnectionDelay st))"
    by (simp only: funpow_add o_apply)
  with a b c d show ?case by simp
qed

subsection \<open>The timer slot\<close>

lemma filter_slot:
  "list_all (\<lambda>p. h' = Some (fst p)) ts \<Longrightarrow>
     (case h' of None \<Rightarrow> ts | Some h \<Rightarrow> filter (\<lambda>p. fst p \<noteq> h) ts) = []"
  by (induction ts) (auto split: option.splits)

lemma timers_reconnect:
  "timer_inv st \<Longrightarrow> \<not> socket_open st \<Longrightarrow>
     timers (reconnect st) = [(next_timer st, reconnectionDelay st)]"
  by (simp add: timer_inv_def reconnect_fields filter_slot)

lemma timer_inv_reconnect: "timer_inv st \<Longrightarrow> timer_inv (reconnect st)"
proof (cases "socket_open st")
  case True
  then show "timer_inv st \<Longrightarrow> ?thesis" by simp
next
  case False
  assume "timer_inv st"
  from timers_reconnect [OF this False] False show ?thesis
    by (simp add: timer_inv_def reconnect_fields(3))
qed

lemma timer_inv_emit [simp]: "timer_inv (emit n st) = timer_inv st"
  by (simp add: timer_inv_def)

lemma timer_inv_exec:
  assumes "timer_inv st"
  shows "timer_inv (exec debug ev st)"
proof (cases ev)
  case Reconnect
  with assms show ?thesis by (simp add: exec_def timer_inv_reconnect)
next
  case OnClose
  have "timer_inv (st\<lparr>connected := False\<rparr>)"
    using assms by (simp add: timer_inv_def)
  with assms OnClose show ?thesis
    by (simp add: exec_def onclose_def timer_inv_reconnect)
next
  case OnError
  with assms show ?thesis by (simp add: exec_def onerror_def timer_inv_reconnect)
next
  case (TimerFire i)
  with assms show ?thesis
    by (auto simp: exec_def timer_fire_def connect_def timer_inv_def list_all_iff
        intro: le_trans [OF length_filter_le])
next
  case (OnMessage now p)
  show ?thesis
  proof (cases p)
    case Malformed
    with OnMessage assms show ?thesis by (simp add: exec_def onmessage_def)
  next
    case (WellFormed data)
    with OnMessage assms show ?thesis
      by (cases data)
        (simp_all add: exec_def onmessage_def receive_trades_def control_switch_def
          on_welcome_def exchange_connected_def exchange_disconnected_def Let_def
          timer_inv_def)
  qed
next
  case (Fetch now f t w)
  with assms show ?thesis
    by (simp add: exec_def fetch_def Let_def timer_inv_def split: prod.splits)
next
  case (FetchThen w xs)
  with assms show ?thesis by (simp add: exec_def fetch_then_def Let_def timer_inv_def)
next
  case (Trim T)
  with assms show ?thesis by (simp add: exec_def trim_def timer_inv_def split: option.splits)
qed (use assms in \<open>auto simp: exec_def connect_def disconnect_def send_def onopen_def
      fetch_catch_def timer_inv_def emit_def split: option.splits\<close>)

lemma timer_inv_trace:
  "timer_inv st \<Longrightarrow> list_all timer_inv (trace debug es st)"
  by (induction es arbitrary: st) (simp_all add: timer_inv_exec)

subsection \<open>Claims on reconnection\<close>

text \<open>
  C7 (as amended). The claim as stated gives the delay armed by the n-th schedule after an
  open as exactly 5000 * 1.1^(n-1); the code multiplies doubles, and already the third
  delay is 6050 + 2^-40 (printed 6050.000000000001), not 6050 (the counterexample is below).
  What holds: the reconnection delay is 2000 at creation; \<^verbatim>\<open>onopen\<close> sets it to 5000; a call
  of \<^verbatim>\<open>reconnect\<close> on a socket that is not open arms a timer with the current delay and
  replaces the delay by its product with 1.1 rounded to the nearest double. Hence after an
  open, with the socket no longer open, the timer armed by the n-th of n calls in a row has
  the delay that n-1 such rounded multiplications make of 5000: it is infinite, or lies
  between 5000 * (1.1 * (1 - 2^-53))^(n-1) and 5000 * (1.1 * (1 + 2^-53)^2)^(n-1). Whatever
  events follow an open, as long as none is an open, the delay is what k rounded
  multiplications make of 5000, with k the number of timers armed since. The delays armed
  exceed every bound: nothing caps them.
\<close>

theorem backoff_growth:
  "reconnectionDelay (initial u) = Finite 2000
   \<and> reconnectionDelay (onopen st) = Finite 5000
   \<and> (\<not> socket_open st \<longrightarrow>
        last_scheduled (reconnect st) = reconnectionDelay st
        \<and> reconnectionDelay (reconnect st) = times_1_1 (reconnectionDelay st))
   \<and> (r \<noteq> Some 1 \<and> 0 < n \<longrightarrow>
        last_scheduled ((reconnect ^^ n) ((onopen st)\<lparr>socket := r\<rparr>))
          = (times_1_1 ^^ (n - 1)) (Finite 5000)
        \<and> (last_scheduled ((reconnect ^^ n) ((onopen st)\<lparr>socket := r\<rparr>)) = PlusInfinity
           \<or> (\<exists>x. last_scheduled ((reconnect ^^ n) ((onopen st)\<lparr>socket := r\<rparr>)) = Finite x
                 \<and> 5000 * lo_factor ^ (n - 1) \<le> x \<and> x \<le> 5000 * hi_factor ^ (n - 1))))
   \<and> (list_all (\<lambda>ev. \<not> is_open ev) es \<longrightarrow>
        reconnectionDelay (run debug es (onopen st))
          = (times_1_1 ^^ (next_timer (run debug es (onopen st)) - next_timer (onopen st)))
              (Finite 5000))
   \<and> (r \<noteq> Some 1 \<longrightarrow>
        (\<exists>k. 0 < k \<and> exceeds (last_scheduled ((reconnect ^^ k) ((onopen st)\<lparr>socket := r\<rparr>))) B))"
proof -
  let ?s = "(onopen st)\<lparr>socket := r\<rparr>"
  have i: "reconnectionDelay (initial u) = Finite 2000"
    by (simp add: initial_def)
  have o: "reconnectionDelay (onopen st) = Finite 5000"
    by (simp add: onopen_def)
  have os: "reconnectionDelay ?s = Finite 5000"
    by (simp add: onopen_def)
  have closed: "\<not> socket_open ?s" if "r \<noteq> Some 1"
    using that by (simp add: socket_open_def)
  have one: "last_scheduled (reconnect st) = reconnectionDelay st
        \<and> reconnectionDelay (reconnect st) = times_1_1 (reconnectionDelay st)"
    if "\<not> socket_open st"
    using that by (simp add: last_scheduled_reconnect reconnect_fields(1))
  have nth: "last_scheduled ((reconnect ^^ n) ?s) = (times_1_1 ^^ (n - 1)) (Finite 5000)"
    if "r \<noteq> Some 1 \<and> 0 < n"
    using that last_scheduled_funpow [OF closed, of n] os by simp
  have near: "last_scheduled ((reconnect ^^ n) ?s) = PlusInfinity
           \<or> (\<exists>x. last_scheduled ((reconnect ^^ n) ?s) = Finite x
                 \<and> 5000 * lo_factor ^ (n - 1) \<le> x \<and> x \<le> 5000 * hi_factor ^ (n - 1))"
    if "r \<noteq> Some 1 \<and> 0 < n"
    using times_1_1_funpow_bounds [of 5000 "n - 1"] unfolding nth [OF that] by simp
  have gen: "reconnectionDelay (run debug es (onopen st))
          = (times_1_1 ^^ (next_timer (run debug es (onopen st)) - next_timer (onopen st)))
              (Finite 5000)"
    if "list_all (\<lambda>ev. \<not> is_open ev) es"
    using run_backoff [OF that, of "onopen st" debug] o by simp
  have unb: "\<exists>k. 0 < k \<and> exceeds (last_scheduled ((reconnect ^^ k) ?s)) B" if r: "r \<noteq> Some 1"
  proof -
    obtain m where m: "exceeds ((times_1_1 ^^ m) (Finite 5000)) B"
      using times_1_1_unbounded [of 5000 B] by auto
    have "last_scheduled ((reconnect ^^ Suc m) ?s) = (times_1_1 ^^ m) (Finite 5000)"
      using last_scheduled_funpow [OF closed [OF r], of "Suc m"] os by simp
    with m have "0 < Suc m \<and> exceeds (last_scheduled ((reconnect ^^ Suc m) ?s)) B"
      by simp
    then show ?thesis by (rule exI)
  qed
  from i o one nth near gen unb show ?thesis by blast
qed

theorem backoff_growth_witness:
  "reconnectionDelay (initial ''ws://localhost:3000'') = Finite 2000
   \<and> reconnectionDelay (onopen (initial ''ws://localhost:3000'')) = Finite 5000
   \<and> \<not> socket_open (initial ''ws://localhost:3000'')
   \<and> last_scheduled (reconnect (initial ''ws://localhost:3000'')) = Finite 2000
   \<and> reconnectionDelay (reconnect (initial ''ws://localhost:3000'')) = Finite 2200
   \<and> Some 3 \<noteq> Some (1::nat) \<and> (0::nat) < 3
   \<and> last_scheduled ((reconnect ^^ 3)
         ((onopen (initial ''ws://localhost:3000''))\<lparr>socket := Some 3\<rparr>))
        = Finite (6050 + 1 / 2 ^ 40)
   \<and> 5000 * lo_factor ^ (3 - 1) \<le> 6050 + 1 / 2 ^ 40
   \<and> 6050 + 1 / 2 ^ 40 \<le> 5000 * hi_factor ^ (3 - 1)
   \<and> list_all (\<lambda>ev. \<not> is_open ev) [ReadyState 3, OnClose, TimerFire 0, OnError]
   \<and> reconnectionDelay (run False [ReadyState 3, OnClose, TimerFire 0, OnError]
         (onopen (initial ''ws://localhost:3000''))) = Finite (6050 + 1 / 2 ^ 40)
   \<and> (\<exists>k. 0 < k \<and> exceeds (last_scheduled ((reconnect ^^ k)
         ((onopen (initial ''ws://localhost:3000''))\<lparr>socket := Some 3\<rparr>))) 1000000)"
proof -
  let ?i = "initial ''ws://localhost:3000''"
  let ?s = "(onopen ?i)\<lparr>socket := Some 3\<rparr>"
  let ?es = "[ReadyState 3, OnClose, TimerFire 0, OnError]"
  note T = backoff_growth [of "''ws://localhost:3000''" ?i "Some 3" 3 ?es False 1000000]
  have c: "\<not> socket_open ?i"
    by (simp add: socket_open_def initial_def)
  have d: "reconnectionDelay ?i = Finite 2000"
    by (simp add: initial_def)
  have m2: "(times_1_1 ^^ (3 - 1)) (Finite 5000) = Finite (6050 + 1 / 2 ^ 40)"
    by (simp add: numeral_2_eq_2 times_1_1_5000 times_1_1_5500 del: times_1_1.simps)
  have n: "list_all (\<lambda>ev. \<not> is_open ev) ?es"
    by simp
  have k: "next_timer (run False ?es (onopen ?i)) - next_timer (onopen ?i) = 3 - 1"
    by (simp add: exec_def onopen_def onclose_def onerror_def timer_fire_def connect_def
        reconnect_def clearTimeout_def setTimeout_def emit_def socket_open_def initial_def
        Let_def del: times_1_1.simps)
  from T have t1: "reconnectionDelay ?i = Finite 2000"
    and t2: "reconnectionDelay (onopen ?i) = Finite 5000"
    by blast+
  from T c have "last_scheduled (reconnect ?i) = reconnectionDelay ?i"
    and "reconnectionDelay (reconnect ?i) = times_1_1 (reconnectionDelay ?i)"
    by blast+
  then have one: "last_scheduled (reconnect ?i) = Finite 2000"
    "reconnectionDelay (reconnect ?i) = Finite 2200"
    by (simp_all only: d times_1_1_2000)
  have p: "Some 3 \<noteq> Some (1::nat) \<and> (0::nat) < 3" by simp
  from T p have "last_scheduled ((reconnect ^^ 3) ?s) = (times_1_1 ^^ (3 - 1)) (Finite 5000)"
    by blast
  then have three: "last_scheduled ((reconnect ^^ 3) ?s) = Finite (6050 + 1 / 2 ^ 40)"
    by (simp only: m2)
  from T p have "last_scheduled ((reconnect ^^ 3) ?s) = PlusInfinity
      \<or> (\<exists>x. last_scheduled ((reconnect ^^ 3) ?s) = Finite x
            \<and> 5000 * lo_factor ^ (3 - 1) \<le> x \<and> x \<le> 5000 * hi_factor ^ (3 - 1))"
    by blast
  then have bounds: "5000 * lo_factor ^ (3 - 1) \<le> 6050 + 1 / 2 ^ 40"
    "6050 + 1 / 2 ^ 40 \<le> 5000 * hi_factor ^ (3 - 1)"
    unfolding three by auto
  from T n have "reconnectionDelay (run False ?es (onopen ?i))
      = (times_1_1 ^^ (next_timer (run False ?es (onopen ?i)) - next_timer (onopen ?i)))
          (Finite 5000)"
    by blast
  then have gen: "reconnectionDelay (run False ?es (onopen ?i)) = Finite (6050 + 1 / 2 ^ 40)"
    by (simp only: k m2)
  from T p have unb: "\<exists>k. 0 < k \<and> exceeds (last_scheduled ((reconnect ^^ k) ?s)) 1000000"
    by blast
  from p have p1: "Some 3 \<noteq> Some (1::nat)" and p2: "(0::nat) < 3"
    by blast+
  show ?thesis
    by (intro conjI) (fact t1 t2 c one p1 p2 three bounds n gen unb)+
qed

text \<open>After an open, the third delay armed.\<close>

theorem backoff_growth_counterexample:
  "last_scheduled ((reconnect ^^ 3)
      ((onopen (initial ''ws://localhost:3000''))\<lparr>socket := Some 3\<rparr>))
     = Finite (6050 + 1 / 2 ^ 40)
   \<and> Finite (6050 + 1 / 2 ^ 40) \<noteq> Finite (5000 * (11 / 10) ^ (3 - 1))"
proof -
  let ?s = "(onopen (initial ''ws://localhost:3000''))\<lparr>socket := Some 3\<rparr>"
  have c: "\<not> socket_open ?s"
    by (simp add: socket_open_def)
  have d: "reconnectionDelay ?s = Finite 5000"
    by (simp add: onopen_def)
  have "last_scheduled ((reconnect ^^ 3) ?s) = (times_1_1 ^^ (3 - 1)) (Finite 5000)"
    using last_scheduled_funpow [OF c, of 3] d by simp
  also have "\<dots> = Finite (6050 + 1 / 2 ^ 40)"
    by (simp add: numeral_2_eq_2 times_1_1_5000 times_1_1_5500 del: times_1_1.simps)
  finally have a: "last_scheduled ((reconnect ^^ 3) ?s) = Finite (6050 + 1 / 2 ^ 40)" .
  have b: "Finite (6050 + 1 / 2 ^ 40) \<noteq> Finite (5000 * (11 / 10) ^ (3 - 1))"
    by (simp add: power2_eq_square)
  from a b show ?thesis by (rule conjI)
qed

text \<open>
  C8. From a state with at most one pending timer whose handle is
  \<^verbatim>\<open>this.reconnectionTimeout\<close> (the state at creation is one), at most one timer is pending
  after every event of every sequence of events. On a socket that is not open, one call of
  \<^verbatim>\<open>reconnect\<close> leaves exactly its own timer pending, and a second call leaves exactly the
  timer of the second call: the first has been cleared.
\<close>

theorem reconnect_single_slot:
  assumes "timer_inv st"
  shows "list_all (\<lambda>s. length (timers s) \<le> 1) (trace debug es st)
       \<and> (\<not> socket_open st \<longrightarrow>
            timers (reconnect st) = [(next_timer st, reconnectionDelay st)]
            \<and> timers (reconnect (reconnect st))
              = [(Suc (next_timer st), times_1_1 (reconnectionDelay st))])"
proof -
  from timer_inv_trace [OF assms, of debug es]
  have a: "list_all (\<lambda>s. length (timers s) \<le> 1) (trace debug es st)"
    by (auto simp: list_all_iff timer_inv_def)
  have b: "timers (reconnect st) = [(next_timer st, reconnectionDelay st)]
            \<and> timers (reconnect (reconnect st))
              = [(Suc (next_timer st), times_1_1 (reconnectionDelay st))]"
    if "\<not> socket_open st"
    using that assms timers_reconnect [of st]
      timers_reconnect [OF timer_inv_reconnect [OF assms]]
    by (simp add: reconnect_fields)
  from a b show ?thesis by blast
qed

theorem reconnect_single_slot_witness:
  "timer_inv (initial ''ws://localhost:3000'')
   \<and> list_all (\<lambda>s. length (timers s) \<le> 1)
        (trace False [Reconnect, Reconnect, OnError, TimerFire 2, OnClose]
           (initial ''ws://localhost:3000''))
   \<and> \<not> socket_open (initial ''ws://localhost:3000'')
   \<and> timers (reconnect (initial ''ws://localhost:3000'')) = [(0, Finite 2000)]
   \<and> timers (reconnect (reconnect (initial ''ws://localhost:3000''))) = [(1, Finite 2200)]"
proof -
  let ?i = "initial ''ws://localhost:3000''"
  have inv: "timer_inv ?i" by code_simp
  have c: "\<not> socket_open ?i" by code_simp
  have n: "next_timer ?i = 0" and d: "reconnectionDelay ?i = Finite 2000" by code_simp+
  have m: "times_1_1 (Finite 2000) = Finite 2200" by (rule times_1_1_2000)
  note T = reconnect_single_slot [OF inv, of False
      "[Reconnect, Reconnect, OnError, TimerFire 2, OnClose]"]
  from T c n d m show ?thesis using inv by (simp del: times_1_1.simps)
qed

section \<open>History requests\<close>

lemma fetch_explicit:
  "t \<noteq> 0 \<Longrightarrow>
     fetch now f (Some t) w st =
       (if lastFetchUrl st = Some (fetch_url st f t) then (Resolved, st)
        else (Request (fetch_url st f t) w,
              st\<lparr>lastFetchUrl := Some (fetch_url st f t),
                 requests := requests st @ [fetch_url st f t]\<rparr>))"
  by (simp add: fetch_def fetch_args_def Let_def)

lemma fetch_url_cong: "http_url s = http_url st \<Longrightarrow> fetch_url s f t = fetch_url st f t"
  by (simp add: fetch_url_def)

lemma reconnect_fetch_fields [simp]:
  "http_url (reconnect st) = http_url st" "lastFetchUrl (reconnect st) = lastFetchUrl st"
  "requests (reconnect st) = requests st"
  by (simp_all add: reconnect_def clearTimeout_def setTimeout_def Let_def split: option.splits)

lemma emit_fetch_fields [simp]:
  "http_url (emit n st) = http_url st" "lastFetchUrl (emit n st) = lastFetchUrl st"
  "requests (emit n st) = requests st"
  by (simp_all add: emit_def)

lemma exec_fetch_fields:
  assumes "\<not> is_fetch ev"
  shows "http_url (exec debug ev st) = http_url st
       \<and> lastFetchUrl (exec debug ev st) = lastFetchUrl st
       \<and> requests (exec debug ev st) = requests st"
proof (cases ev)
  case (OnMessage now p)
  show ?thesis
  proof (cases p)
    case Malformed
    with OnMessage show ?thesis by (simp add: exec_def onmessage_def)
  next
    case (WellFormed data)
    with OnMessage show ?thesis
      by (cases data)
        (simp_all add: exec_def onmessage_def receive_trades_def control_switch_def
          on_welcome_def exchange_connected_def exchange_disconnected_def Let_def)
  qed
next
  case (Fetch now f t w)
  with assms show ?thesis by simp
next
  case (FetchThen w xs)
  then show ?thesis by (simp add: exec_def fetch_then_def Let_def)
next
  case (Trim T)
  then show ?thesis by (simp add: exec_def trim_def split: option.splits)
qed (auto simp: exec_def connect_def disconnect_def send_def onopen_def onclose_def
      onerror_def timer_fire_def fetch_catch_def split: option.splits)

lemma run_fetch_fields:
  "list_all (\<lambda>ev. \<not> is_fetch ev) es \<Longrightarrow>
     http_url (run debug es st) = http_url st
     \<and> lastFetchUrl (run debug es st) = lastFetchUrl st
     \<and> requests (run debug es st) = requests st"
  by (induction es arbitrary: st) (simp_all add: exec_fetch_fields)

lemma fetch_after:
  assumes "t \<noteq> 0"
  shows "http_url (snd (fetch now f (Some t) w st)) = http_url st"
    and "lastFetchUrl (snd (fetch now f (Some t) w st)) = Some (fetch_url st f t)"
    and "requests (snd (fetch now f (Some t) w st)) =
           (if lastFetchUrl st = Some (fetch_url st f t) then requests st
            else requests st @ [fetch_url st f t])"
    and "fst (fetch now f (Some t) w st) =
           (if lastFetchUrl st = Some (fetch_url st f t) then Resolved
            else Request (fetch_url st f t) w)"
  using assms by (simp_all add: fetch_explicit)

lemma fetch_again:
  assumes "t \<noteq> 0" and "list_all (\<lambda>ev. \<not> is_fetch ev) es"
  shows "fetch now2 f (Some t) w2 (run debug es (snd (fetch now1 f (Some t) w1 st)))
           = (Resolved, run debug es (snd (fetch now1 f (Some t) w1 st)))"
proof -
  let ?s1 = "snd (fetch now1 f (Some t) w1 st)"
  let ?s2 = "run debug es ?s1"
  from run_fetch_fields [OF assms(2), of debug ?s1] fetch_after(1,2) [OF assms(1), of now1 f w1 st]
  have h: "http_url ?s2 = http_url st" and l: "lastFetchUrl ?s2 = Some (fetch_url st f t)"
    by simp_all
  from h have "fetch_url ?s2 f t = fetch_url st f t" by (rule fetch_url_cong)
  with l show ?thesis by (simp add: fetch_explicit [OF assms(1)])
qed

subsection \<open>Claims on history requests\<close>

text \<open>
  C9. Two calls \<^verbatim>\<open>fetch(from, to)\<close> with the same arguments (\<open>to\<close> given, not 0), with any
  events between them other than a call of \<^verbatim>\<open>fetch\<close> or a completion of a request: the
  second call returns a promise already resolved, with nothing, and changes nothing; when
  the first call was not itself a repetition of the last URL, it issued the request, and
  the two calls together issued exactly that one request.
\<close>

theorem duplicate_fetch_suppressed:
  assumes "t \<noteq> 0"
    and "list_all (\<lambda>ev. \<not> is_fetch ev \<and> \<not> is_completion ev) es"
  shows "fetch now2 f (Some t) w (run debug es (snd (fetch now1 f (Some t) w st)))
           = (Resolved, run debug es (snd (fetch now1 f (Some t) w st)))
       \<and> (lastFetchUrl st \<noteq> Some (fetch_url st f t) \<longrightarrow>
            fst (fetch now1 f (Some t) w st) = Request (fetch_url st f t) w
            \<and> requests (snd (fetch now2 f (Some t) w
                 (run debug es (snd (fetch now1 f (Some t) w st)))))
              = requests st @ [fetch_url st f t])"
proof -
  from assms(2) have nf: "list_all (\<lambda>ev. \<not> is_fetch ev) es"
    by (simp add: list_all_iff)
  have a: "fetch now2 f (Some t) w (run debug es (snd (fetch now1 f (Some t) w st)))
           = (Resolved, run debug es (snd (fetch now1 f (Some t) w st)))"
    using assms(1) nf by (rule fetch_again)
  have b: "fst (fetch now1 f (Some t) w st) = Request (fetch_url st f t) w
            \<and> requests (snd (fetch now2 f (Some t) w
                 (run debug es (snd (fetch now1 f (Some t) w st)))))
              = requests st @ [fetch_url st f t]"
    if "lastFetchUrl st \<noteq> Some (fetch_url st f t)"
    using that run_fetch_fields [OF nf, of debug "snd (fetch now1 f (Some t) w st)"]
      fetch_after(3,4) [OF assms(1), of now1 f w st]
    by (simp add: a)
  from a b show ?thesis by blast
qed

theorem duplicate_fetch_suppressed_witness:
  "(1700000060000::int) \<noteq> 0
   \<and> list_all (\<lambda>ev. \<not> is_fetch ev \<and> \<not> is_completion ev)
        [FetchProgress 10 100, OnMessage 5 (WellFormed (JArr [trade_at 300]))]
   \<and> lastFetchUrl (sample [100]) \<noteq> Some (fetch_url (sample [100]) 1700000000000 1700000060000)
   \<and> fst (fetch 1 1700000000000 (Some 1700000060000) False (sample [100]))
       = Request ''http://localhost:3000/history/1700000000000/1700000060000'' False
   \<and> fst (fetch 2 1700000000000 (Some 1700000060000) False
        (run False [FetchProgress 10 100, OnMessage 5 (WellFormed (JArr [trade_at 300]))]
          (snd (fetch 1 1700000000000 (Some 1700000060000) False (sample [100])))))
       = Resolved
   \<and> requests (snd (fetch 2 1700000000000 (Some 1700000060000) False
        (run False [FetchProgress 10 100, OnMessage 5 (WellFormed (JArr [trade_at 300]))]
          (snd (fetch 1 1700000000000 (Some 1700000060000) False (sample [100]))))))
       = [''http://localhost:3000/history/1700000000000/1700000060000'']"
proof -
  let ?es = "[FetchProgress 10 100, OnMessage 5 (WellFormed (JArr [trade_at 300]))]"
  have h1: "(1700000060000::int) \<noteq> 0" by simp
  have h2: "list_all (\<lambda>ev. \<not> is_fetch ev \<and> \<not> is_completion ev) ?es" by code_simp
  have f: "lastFetchUrl (sample [100])
       \<noteq> Some (fetch_url (sample [100]) 1700000000000 1700000060000)"
    by (simp add: sample_def initial_def)
  have u: "fetch_url (sample [100]) 1700000000000 1700000060000
       = ''http://localhost:3000/history/1700000000000/1700000060000''"
    by (simp add: fetch_url_def show_int_def sample_def initial_def http_of_def)
  have r: "requests (sample [100]) = []"
    by (simp add: sample_def initial_def)
  note T = duplicate_fetch_suppressed [OF h1 h2, of 2 1700000000000 False False 1 "sample [100]"]
  from T have a: "fst (fetch 2 1700000000000 (Some 1700000060000) False
        (run False ?es (snd (fetch 1 1700000000000 (Some 1700000060000) False (sample [100])))))
       = Resolved"
    by (simp only: fst_conv)
  from T f have b: "fst (fetch 1 1700000000000 (Some 1700000060000) False (sample [100]))
       = Request (fetch_url (sample [100]) 1700000000000 1700000060000) False"
    and c: "requests (snd (fetch 2 1700000000000 (Some 1700000060000) False
        (run False ?es (snd (fetch 1 1700000000000 (Some 1700000060000) False (sample [100]))))))
       = requests (sample [100]) @ [fetch_url (sample [100]) 1700000000000 1700000060000]"
    by blast+
  from h1 h2 f a b c show ?thesis
    unfolding u r by (simp only: append_Nil simp_thms)
qed

text \<open>
  C10. A call \<^verbatim>\<open>fetch(from, to)\<close> (\<open>to\<close> given, not 0) records its URL in
  \<^verbatim>\<open>lastFetchUrl\<close>; the \<^verbatim>\<open>catch\<close> handler of a failed request leaves it there. So after
  the failure, and after any further events other than a call of \<^verbatim>\<open>fetch\<close>, a call with
  the same arguments returns a promise already resolved, with nothing, and issues no
  request.
\<close>

theorem failed_fetch_not_retried:
  assumes "t \<noteq> 0"
    and "list_all (\<lambda>ev. \<not> is_fetch ev) es"
  shows "lastFetchUrl (snd (fetch now1 f (Some t) w st)) = Some (fetch_url st f t)
       \<and> lastFetchUrl (fetch_catch err (snd (fetch now1 f (Some t) w st)))
           = Some (fetch_url st f t)
       \<and> fetch now2 f (Some t) w
           (run debug (FetchCatch err # es) (snd (fetch now1 f (Some t) w st)))
           = (Resolved, run debug (FetchCatch err # es) (snd (fetch now1 f (Some t) w st)))
       \<and> requests (run debug (FetchCatch err # es) (snd (fetch now1 f (Some t) w st)))
           = requests (snd (fetch now1 f (Some t) w st))"
proof -
  let ?s1 = "snd (fetch now1 f (Some t) w st)"
  from assms(2) have nf: "list_all (\<lambda>ev. \<not> is_fetch ev) (FetchCatch err # es)"
    by simp
  have a: "lastFetchUrl ?s1 = Some (fetch_url st f t)"
    using assms(1) by (rule fetch_after(2))
  have b: "lastFetchUrl (fetch_catch err ?s1) = Some (fetch_url st f t)"
    using a by (simp add: fetch_catch_def split: option.splits)
  have c: "fetch now2 f (Some t) w (run debug (FetchCatch err # es) ?s1)
           = (Resolved, run debug (FetchCatch err # es) ?s1)"
    using assms(1) nf by (rule fetch_again)
  have d: "requests (run debug (FetchCatch err # es) ?s1) = requests ?s1"
    using run_fetch_fields [OF nf, of debug ?s1] by simp
  from a b c d show ?thesis by (intro conjI)
qed

theorem failed_fetch_not_retried_witness:
  "(1700000060000::int) \<noteq> 0
   \<and> list_all (\<lambda>ev. \<not> is_fetch ev) [OnMessage 5 (WellFormed (JArr [trade_at 300])), Trim 200]
   \<and> lastFetchUrl (fetch_catch (Some ''Network Error'')
        (snd (fetch 1 1700000000000 (Some 1700000060000) False (sample [100]))))
       = Some ''http://localhost:3000/history/1700000000000/1700000060000''
   \<and> fst (fetch 9 1700000000000 (Some 1700000060000) False
        (run False (FetchCatch (Some ''Network Error'')
             # [OnMessage 5 (WellFormed (JArr [trade_at 300])), Trim 200])
          (snd (fetch 1 1700000000000 (Some 1700000060000) False (sample [100])))))
       = Resolved
   \<and> requests (snd (fetch 9 1700000000000 (Some 1700000060000) False
        (run False (FetchCatch (Some ''Network Error'')
             # [OnMessage 5 (WellFormed (JArr [trade_at 300])), Trim 200])
          (snd (fetch 1 1700000000000 (Some 1700000060000) False (sample [100]))))))
       = [''http://localhost:3000/history/1700000000000/1700000060000'']"
proof -
  let ?es = "[OnMessage 5 (WellFormed (JArr [trade_at 300])), Trim 200]"
  have h1: "(1700000060000::int) \<noteq> 0" by simp
  have h2: "list_all (\<lambda>ev. \<not> is_fetch ev) ?es" by code_simp
  have u: "fetch_url (sample [100]) 1700000000000 1700000060000
       = ''http://localhost:3000/history/1700000000000/1700000060000''"
    by (simp add: fetch_url_def show_int_def sample_def initial_def http_of_def)
  have r: "requests (snd (fetch 1 1700000000000 (Some 1700000060000) False (sample [100])))
       = [''http://localhost:3000/history/1700000000000/1700000060000'']"
    using fetch_after(3) [OF h1, of 1 1700000000000 False "sample [100]"]
    by (simp add: u) (simp add: sample_def initial_def)
  note T = failed_fetch_not_retried [OF h1 h2, of 1 1700000000000 False "sample [100]"
      "Some ''Network Error''" 9 False]
  from T u r h1 h2 show ?thesis by simp
qed

end
